theory Spec2Isabelle
  imports Main "HOL-Library.AList"
begin

section \<open>Cell Store and State Cache (server/models/database.js)\<close>

subsection \<open>Cache keys\<close>

text \<open>
  The cache is a JavaScript \<open>Map\<close> keyed by the template string \<^verbatim>\<open>`${x},${y}`\<close>.
  Coordinates are modelled as unbounded integers and rendered in decimal, as
  JavaScript renders an integral number (below the exponent range).
\<close>

definition digit_char :: "nat \<Rightarrow> char" where
  "digit_char d = char_of (48 + d)"

fun digits :: "nat \<Rightarrow> string" where
  "digits n = (if n < 10 then [digit_char n] else digits (n div 10) @ [digit_char (n mod 10)])"

declare digits.simps [simp del]

definition number_string :: "int \<Rightarrow> string" where
  "number_string i = (if i < 0 then CHR ''-'' # digits (nat (- i)) else digits (nat i))"

definition cache_key :: "int \<Rightarrow> int \<Rightarrow> string" where
  "cache_key x y = number_string x @ CHR '','' # number_string y"

subsection \<open>Tables and module state\<close>

text \<open>
  A row of table \<open>pixels\<close> without its primary key \<open>(x, y)\<close>; the table is an
  association list from the primary key to the remaining columns.
\<close>

record pixel_row =
  row_color :: string
  row_placed_by :: "string option"
  row_placed_at :: int

text \<open>A row of table \<open>pixel_history\<close>; \<open>hist_id\<close> is the AUTOINCREMENT key.\<close>

record history_row =
  hist_id :: nat
  hist_x :: int
  hist_y :: int
  hist_color :: string
  hist_placed_by :: "string option"
  hist_placed_at :: int

record user_row =
  first_seen :: int
  last_seen :: int
  pixel_count :: int

record snapshot =
  snap_width :: int
  snap_height :: int
  snap_timestamp :: int
  snap_pixels :: "(int \<times> int \<times> string) list"

text \<open>The objects held by \<open>cache.pixels\<close>: \<open>{ x, y, color, placed_by, placed_at }\<close>.\<close>

record cached_pixel =
  cp_x :: int
  cp_y :: int
  cp_color :: string
  cp_placed_by :: "string option"
  cp_placed_at :: int

text \<open>
  The module state: the four tables of the SQLite file (with the AUTOINCREMENT
  counter of \<open>pixel_history\<close>), the in-memory \<open>cache\<close> object
  (\<open>cache.pixels\<close> as an association list in insertion order, as a JavaScript
  \<open>Map\<close> iterates, and \<open>cache.count\<close>), the counter \<open>placementsSincePrune\<close>, and
  the flags \<open>dbInitialized\<close> and \<open>transactions\<close> (whether the lazily built
  transaction object exists).
\<close>

record database =
  pixels :: "((int \<times> int) \<times> pixel_row) list"
  pixel_history :: "history_row list"
  history_seq :: nat
  users :: "(string \<times> user_row) list"
  canvas_snapshots :: "snapshot list"
  cache_pixels :: "(string \<times> cached_pixel) list"
  cache_count :: int
  cache_initialized :: bool
  placementsSincePrune :: nat
  dbInitialized :: bool
  transactions :: bool

record canvas_config =
  canvas_width :: int
  canvas_height :: int
  openMode :: bool

datatype error = NotInitialized

definition HISTORY_MAX_ENTRIES :: nat where
  "HISTORY_MAX_ENTRIES = 100000"

definition PRUNE_CHECK_INTERVAL :: nat where
  "PRUNE_CHECK_INTERVAL = 500"

subsection \<open>Prepared statements\<close>

text \<open>\<open>stmt.setPixel\<close>: INSERT ... ON CONFLICT(x, y) DO UPDATE.\<close>

definition setPixel :: "int \<Rightarrow> int \<Rightarrow> string \<Rightarrow> string option \<Rightarrow> int \<Rightarrow> database \<Rightarrow> database" where
  "setPixel x y c addr now s =
     s\<lparr>pixels := AList.update (x, y)
           \<lparr>row_color = c, row_placed_by = addr, row_placed_at = now\<rparr> (pixels s)\<rparr>"

text \<open>\<open>stmt.deletePixel\<close>: DELETE FROM pixels WHERE x = ? AND y = ?.\<close>

definition deletePixel :: "int \<Rightarrow> int \<Rightarrow> database \<Rightarrow> database" where
  "deletePixel x y s = s\<lparr>pixels := AList.delete (x, y) (pixels s)\<rparr>"

text \<open>\<open>stmt.addHistory\<close>: the new row takes the next AUTOINCREMENT id.\<close>

definition addHistory :: "int \<Rightarrow> int \<Rightarrow> string \<Rightarrow> string option \<Rightarrow> int \<Rightarrow> database \<Rightarrow> database" where
  "addHistory x y c addr now s =
     s\<lparr>pixel_history := pixel_history s @
           [\<lparr>hist_id = Suc (history_seq s), hist_x = x, hist_y = y, hist_color = c,
             hist_placed_by = addr, hist_placed_at = now\<rparr>],
       history_seq := Suc (history_seq s)\<rparr>"

text \<open>\<open>stmt.upsertUser\<close>: INSERT ... ON CONFLICT(address) DO UPDATE SET last_seen.\<close>

definition upsertUser :: "string \<Rightarrow> int \<Rightarrow> database \<Rightarrow> database" where
  "upsertUser addr now s =
     s\<lparr>users := (case map_of (users s) addr of
          None \<Rightarrow> AList.update addr \<lparr>first_seen = now, last_seen = now, pixel_count = 0\<rparr> (users s)
        | Some u \<Rightarrow> AList.update addr (u\<lparr>last_seen := now\<rparr>) (users s))\<rparr>"

text \<open>UPDATE users SET pixel_count = pixel_count + n WHERE address = ?.\<close>

definition incUserPixels :: "string \<Rightarrow> int \<Rightarrow> database \<Rightarrow> database" where
  "incUserPixels addr n s =
     s\<lparr>users := (case map_of (users s) addr of
          None \<Rightarrow> users s
        | Some u \<Rightarrow> AList.update addr (u\<lparr>pixel_count := pixel_count u + n\<rparr>) (users s))\<rparr>"

text \<open>\<open>stmt.getHistoryCount\<close>: SELECT COUNT(*) FROM pixel_history.\<close>

definition getHistoryCount :: "database \<Rightarrow> nat" where
  "getHistoryCount s = length (pixel_history s)"

text \<open>
  \<open>stmt.pruneHistory\<close>: DELETE FROM pixel_history WHERE id <= (SELECT id FROM
  pixel_history ORDER BY id DESC LIMIT 1 OFFSET n). The subquery yields the id
  at position \<open>n\<close> of the ids in descending order, or nothing when the table has
  at most \<open>n\<close> rows; then no row is deleted.
\<close>

definition prune_pivot :: "nat \<Rightarrow> history_row list \<Rightarrow> nat option" where
  "prune_pivot n h =
     (let ids = rev (sort (map hist_id h)) in if n < length ids then Some (ids ! n) else None)"

definition pruneHistory :: "nat \<Rightarrow> database \<Rightarrow> database" where
  "pruneHistory n s =
     (case prune_pivot n (pixel_history s) of
        None \<Rightarrow> s
      | Some p \<Rightarrow> s\<lparr>pixel_history := filter (\<lambda>r. \<not> hist_id r \<le> p) (pixel_history s)\<rparr>)"

subsection \<open>The mutation path\<close>

definition maybePruneHistory :: "database \<Rightarrow> database" where
  "maybePruneHistory s =
     (let n = Suc (placementsSincePrune s) in
      if n < PRUNE_CHECK_INTERVAL then s\<lparr>placementsSincePrune := n\<rparr>
      else
        let s' = s\<lparr>placementsSincePrune := 0\<rparr> in
        if getHistoryCount s' > HISTORY_MAX_ENTRIES then pruneHistory HISTORY_MAX_ENTRIES s'
        else s')"

definition cache_has :: "string \<Rightarrow> database \<Rightarrow> bool" where
  "cache_has k s = (map_of (cache_pixels s) k \<noteq> None)"

definition cache_set :: "string \<Rightarrow> cached_pixel \<Rightarrow> database \<Rightarrow> database" where
  "cache_set k p s = s\<lparr>cache_pixels := AList.update k p (cache_pixels s)\<rparr>"

text \<open>
  \<open>if (addr) { stmt.upsertUser.run(addr); ... pixel_count + n ... }\<close>: an address is
  truthy when it is neither \<open>null\<close> nor the empty string.
\<close>

definition count_user :: "string option \<Rightarrow> int \<Rightarrow> int \<Rightarrow> database \<Rightarrow> database" where
  "count_user addr n now s =
     (case addr of
        None \<Rightarrow> s
      | Some a \<Rightarrow> if a \<noteq> [] then incUserPixels a n (upsertUser a now s) else s)"

text \<open>\<open>transactions.placePixel\<close>.\<close>

definition tx_placePixel :: "int \<Rightarrow> int \<Rightarrow> string \<Rightarrow> string option \<Rightarrow> int \<Rightarrow> database \<Rightarrow> database" where
  "tx_placePixel x y c addr now s =
     (let s1 = setPixel x y c addr now s;
          s2 = addHistory x y c addr now s1;
          s3 = count_user addr 1 now s2;
          k = cache_key x y;
          s4 = (if \<not> cache_has k s3 then s3\<lparr>cache_count := cache_count s3 + 1\<rparr> else s3);
          s5 = cache_set k \<lparr>cp_x = x, cp_y = y, cp_color = c, cp_placed_by = addr,
                            cp_placed_at = now\<rparr> s4
      in maybePruneHistory s5)"

text \<open>The loop of \<open>transactions.placeBatch\<close>, threading the local \<open>newCount\<close>.\<close>

fun placeBatch_loop ::
  "(int \<times> int \<times> string) list \<Rightarrow> string option \<Rightarrow> int \<Rightarrow> database \<times> int \<Rightarrow> database \<times> int" where
  "placeBatch_loop [] addr now (s, newCount) = (s, newCount)"
| "placeBatch_loop ((x, y, c) # ps) addr now (s, newCount) =
     (let s1 = setPixel x y c addr now s;
          s2 = addHistory x y c addr now s1;
          k = cache_key x y;
          newCount' = (if \<not> cache_has k s2 then newCount + 1 else newCount);
          s3 = cache_set k \<lparr>cp_x = x, cp_y = y, cp_color = c, cp_placed_by = addr,
                            cp_placed_at = now\<rparr> s2
      in placeBatch_loop ps addr now (s3, newCount'))"

text \<open>\<open>transactions.placeBatch\<close>.\<close>

definition tx_placeBatch :: "(int \<times> int \<times> string) list \<Rightarrow> string option \<Rightarrow> int \<Rightarrow> database \<Rightarrow> database" where
  "tx_placeBatch ps addr now s =
     (let (s1, newCount) = placeBatch_loop ps addr now (s, 0);
          s2 = count_user addr (int (length ps)) now s1;
          s3 = s2\<lparr>cache_count := cache_count s2 + newCount\<rparr>
      in maybePruneHistory s3)"

text \<open>\<open>transactions.erase\<close>.\<close>

definition tx_erase :: "int \<Rightarrow> int \<Rightarrow> string option \<Rightarrow> int \<Rightarrow> database \<Rightarrow> database" where
  "tx_erase x y admin now s =
     (let s1 = deletePixel x y s;
          s2 = addHistory x y ''ERASED'' admin now s1;
          k = cache_key x y
      in if cache_has k s2
         then s2\<lparr>cache_pixels := AList.delete k (cache_pixels s2),
                 cache_count := cache_count s2 - 1\<rparr>
         else s2)"

text \<open>\<open>transactions.bulkImport\<close>.\<close>

fun tx_bulkImport :: "(int \<times> int \<times> string) list \<Rightarrow> int \<Rightarrow> database \<Rightarrow> database" where
  "tx_bulkImport [] now s = s"
| "tx_bulkImport ((x, y, c) # ps) now s =
     (let s1 = setPixel x y c None now s;
          k = cache_key x y;
          s2 = (if \<not> cache_has k s1 then s1\<lparr>cache_count := cache_count s1 + 1\<rparr> else s1);
          s3 = cache_set k \<lparr>cp_x = x, cp_y = y, cp_color = c, cp_placed_by = None,
                            cp_placed_at = now\<rparr> s2
      in tx_bulkImport ps now s3)"

subsection \<open>\<open>databaseAPI\<close>\<close>

definition ensureInitialized :: "database \<Rightarrow> error + database" where
  "ensureInitialized s = (if \<not> dbInitialized s then Inl NotInitialized else Inr s)"

definition getTransactions :: "database \<Rightarrow> error + database" where
  "getTransactions s =
     (if transactions s then Inr s
      else case ensureInitialized s of
             Inl e \<Rightarrow> Inl e
           | Inr s' \<Rightarrow> Inr (s'\<lparr>transactions := True\<rparr>))"

definition placePixel :: "int \<Rightarrow> int \<Rightarrow> string \<Rightarrow> string option \<Rightarrow> int \<Rightarrow> database \<Rightarrow> error + database" where
  "placePixel x y c addr now s =
     (case getTransactions s of Inl e \<Rightarrow> Inl e | Inr s' \<Rightarrow> Inr (tx_placePixel x y c addr now s'))"

definition placePixelsBatch :: "(int \<times> int \<times> string) list \<Rightarrow> string option \<Rightarrow> int \<Rightarrow> database \<Rightarrow> error + database" where
  "placePixelsBatch ps addr now s =
     (if ps \<noteq> [] then
        (case getTransactions s of Inl e \<Rightarrow> Inl e | Inr s' \<Rightarrow> Inr (tx_placeBatch ps addr now s'))
      else Inr s)"

definition erasePixel :: "int \<Rightarrow> int \<Rightarrow> string option \<Rightarrow> int \<Rightarrow> database \<Rightarrow> error + database" where
  "erasePixel x y admin now s =
     (case getTransactions s of Inl e \<Rightarrow> Inl e | Inr s' \<Rightarrow> Inr (tx_erase x y admin now s'))"

definition getPixel :: "int \<Rightarrow> int \<Rightarrow> database \<Rightarrow> cached_pixel option" where
  "getPixel x y s = map_of (cache_pixels s) (cache_key x y)"

definition getAllPixels :: "database \<Rightarrow> (int \<times> int \<times> string) list" where
  "getAllPixels s = map (\<lambda>(k, p). (cp_x p, cp_y p, cp_color p)) (cache_pixels s)"

definition getPixelCount :: "database \<Rightarrow> int" where
  "getPixelCount s = cache_count s"

text \<open>\<open>databaseAPI.clearCanvas\<close>.\<close>

definition databaseAPI_clearCanvas :: "database \<Rightarrow> error + database" where
  "databaseAPI_clearCanvas s =
     (case ensureInitialized s of
        Inl e \<Rightarrow> Inl e
      | Inr s' \<Rightarrow> Inr (s'\<lparr>pixels := [], cache_pixels := [], cache_count := 0\<rparr>))"

definition saveSnapshot :: "canvas_config \<Rightarrow> int \<Rightarrow> database \<Rightarrow> error + database" where
  "saveSnapshot cfg now s =
     (case ensureInitialized s of
        Inl e \<Rightarrow> Inl e
      | Inr s' \<Rightarrow> Inr (s'\<lparr>canvas_snapshots := canvas_snapshots s' @
          [\<lparr>snap_width = canvas_width cfg, snap_height = canvas_height cfg,
            snap_timestamp = now, snap_pixels = getAllPixels s'\<rparr>]\<rparr>))"

definition bulkImport :: "(int \<times> int \<times> string) list \<Rightarrow> int \<Rightarrow> database \<Rightarrow> error + database" where
  "bulkImport ps now s =
     (case getTransactions s of Inl e \<Rightarrow> Inl e | Inr s' \<Rightarrow> Inr (tx_bulkImport ps now s'))"

subsection \<open>Startup: \<open>initDatabase\<close>\<close>

text \<open>
  The module-level initial values (\<open>cache\<close>, \<open>placementsSincePrune\<close>,
  \<open>dbInitialized\<close>, \<open>transactions\<close>) before \<open>initDatabase\<close> has run; no database
  is open yet, so the tables are empty.
\<close>

definition module_state :: database where
  "module_state =
     \<lparr>pixels = [], pixel_history = [], history_seq = 0, users = [], canvas_snapshots = [],
      cache_pixels = [], cache_count = 0, cache_initialized = False,
      placementsSincePrune = 0, dbInitialized = False, transactions = False\<rparr>"

text \<open>The content of the SQLite file that \<open>initDatabase\<close> opens.\<close>

record disk =
  disk_pixels :: "((int \<times> int) \<times> pixel_row) list"
  disk_history :: "history_row list"
  disk_seq :: nat
  disk_users :: "(string \<times> user_row) list"
  disk_snapshots :: "snapshot list"

text \<open>
  What SQLite guarantees of a stored file: the primary key of \<open>pixels\<close> is unique,
  and the AUTOINCREMENT ids of \<open>pixel_history\<close> increase in insertion order and
  never exceed the recorded sequence value.
\<close>

definition disk_ok :: "disk \<Rightarrow> bool" where
  "disk_ok d \<longleftrightarrow>
     distinct (map fst (disk_pixels d)) \<and>
     sorted_wrt (<) (map hist_id (disk_history d)) \<and>
     list_all (\<lambda>r. hist_id r \<le> disk_seq d) (disk_history d)"

text \<open>\<open>rows.forEach(p => cache.pixels.set(`${p.x},${p.y}`, p))\<close>.\<close>

fun load_rows :: "((int \<times> int) \<times> pixel_row) list \<Rightarrow> database \<Rightarrow> database" where
  "load_rows [] s = s"
| "load_rows (((x, y), r) # rows) s =
     load_rows rows
       (cache_set (cache_key x y)
          \<lparr>cp_x = x, cp_y = y, cp_color = row_color r, cp_placed_by = row_placed_by r,
           cp_placed_at = row_placed_at r\<rparr> s)"

text \<open>The transaction \<open>importTx\<close> of \<open>initDatabase\<close> (auto-import of the embedded backup).\<close>

fun importTx :: "(int \<times> int \<times> string) list \<Rightarrow> int \<Rightarrow> database \<Rightarrow> database" where
  "importTx [] now s = s"
| "importTx ((x, y, c) # ps) now s =
     importTx ps now
       (cache_set (cache_key x y)
          \<lparr>cp_x = x, cp_y = y, cp_color = c, cp_placed_by = None, cp_placed_at = now\<rparr>
          (setPixel x y c None now s))"

text \<open>
  \<open>initDatabase\<close>, given the content \<open>d\<close> of the database file and the result
  \<open>backup\<close> of \<open>loadEmbeddedBackup\<close> (\<open>None\<close> for \<open>null\<close>, otherwise the \<open>pixels\<close>
  array of the backup file). Finding the directory and creating the schema are
  not modelled.
\<close>

definition initDatabase :: "disk \<Rightarrow> (int \<times> int \<times> string) list option \<Rightarrow> int \<Rightarrow> database \<Rightarrow> database" where
  "initDatabase d backup now s =
     (if dbInitialized s then s
      else
        let s1 = s\<lparr>pixels := disk_pixels d, pixel_history := disk_history d,
                   history_seq := disk_seq d, users := disk_users d,
                   canvas_snapshots := disk_snapshots d\<rparr>;
            rows = pixels s1;
            s2 = load_rows rows s1;
            s3 = s2\<lparr>cache_count := int (length rows), cache_initialized := True\<rparr>;
            s4 = (if cache_count s3 = 0 then
                    (case backup of
                       None \<Rightarrow> s3
                     | Some ps \<Rightarrow>
                         if length ps > 0
                         then (importTx ps now s3)\<lparr>cache_count := int (length ps)\<rparr>
                         else s3)
                  else s3)
        in s4\<lparr>dbInitialized := True\<rparr>)"

subsection \<open>Canvas service (services/canvas.js)\<close>

definition getTotalSlots :: "canvas_config \<Rightarrow> int" where
  "getTotalSlots cfg = canvas_width cfg * canvas_height cfg"

record status =
  pixelCount :: int
  totalSlots :: int
  isFull :: bool

definition getStatus :: "canvas_config \<Rightarrow> database \<Rightarrow> status" where
  "getStatus cfg s =
     (let n = getPixelCount s; total = getTotalSlots cfg
      in \<lparr>pixelCount = n, totalSlots = total, isFull = (n \<ge> total)\<rparr>)"

definition exportCanvas :: "canvas_config \<Rightarrow> int \<Rightarrow> database \<Rightarrow> snapshot" where
  "exportCanvas cfg now s =
     \<lparr>snap_width = canvas_width cfg, snap_height = canvas_height cfg, snap_timestamp = now,
      snap_pixels = getAllPixels s\<rparr>"

definition clearCanvas :: "canvas_config \<Rightarrow> int \<Rightarrow> database \<Rightarrow> error + database" where
  "clearCanvas cfg now s =
     (case saveSnapshot cfg now s of Inl e \<Rightarrow> Inl e | Inr s1 \<Rightarrow> databaseAPI_clearCanvas s1)"

definition importCanvas :: "canvas_config \<Rightarrow> (int \<times> int \<times> string) list \<Rightarrow> int \<Rightarrow> database \<Rightarrow> error + database" where
  "importCanvas cfg ps now s =
     (case saveSnapshot cfg now s of Inl e \<Rightarrow> Inl e | Inr s1 \<Rightarrow> bulkImport ps now s1)"

subsection \<open>Reachable states\<close>

text \<open>
  The states the running server can be in: the state built by \<open>initDatabase\<close> from
  a stored file, followed by any successful calls of the mutating operations.
\<close>

inductive reachable :: "database \<Rightarrow> bool" where
  start: "disk_ok d \<Longrightarrow> reachable (initDatabase d backup now module_state)"
| place: "reachable s \<Longrightarrow> placePixel x y c addr now s = Inr s' \<Longrightarrow> reachable s'"
| batch: "reachable s \<Longrightarrow> placePixelsBatch ps addr now s = Inr s' \<Longrightarrow> reachable s'"
| erase: "reachable s \<Longrightarrow> erasePixel x y addr now s = Inr s' \<Longrightarrow> reachable s'"
| clear: "reachable s \<Longrightarrow> clearCanvas cfg now s = Inr s' \<Longrightarrow> reachable s'"
| imported: "reachable s \<Longrightarrow> importCanvas cfg ps now s = Inr s' \<Longrightarrow> reachable s'"

text \<open>The observable grid: every occupied cell with its color and writer.\<close>

definition grid :: "database \<Rightarrow> (string \<times> int \<times> int \<times> string \<times> string option) list" where
  "grid s = map (\<lambda>(k, p). (k, cp_x p, cp_y p, cp_color p, cp_placed_by p)) (cache_pixels s)"

definition stored_grid :: "database \<Rightarrow> ((int \<times> int) \<times> string \<times> string option) list" where
  "stored_grid s = map (\<lambda>(k, r). (k, row_color r, row_placed_by r)) (pixels s)"

section \<open>Auxiliary notions for the Cell Store and State Cache\<close>

text \<open>The placement-log row that \<open>stmt.addHistory\<close> inserts under id \<open>n\<close>.\<close>

definition log_row :: "int \<Rightarrow> int \<Rightarrow> string \<Rightarrow> string option \<Rightarrow> int \<Rightarrow> nat \<Rightarrow> history_row" where
  "log_row x y c addr now n =
     \<lparr>hist_id = n, hist_x = x, hist_y = y, hist_color = c, hist_placed_by = addr,
      hist_placed_at = now\<rparr>"

text \<open>The Cell Store's \<open>readAll\<close>: every stored cell as \<open>(x, y, color)\<close>.\<close>

definition stored_cells :: "database \<Rightarrow> (int \<times> int \<times> string) list" where
  "stored_cells s = map (\<lambda>((x, y), r). (x, y, row_color r)) (pixels s)"

text \<open>The cache entry that mirrors a row of table \<open>pixels\<close>.\<close>

definition mirror :: "(int \<times> int) \<times> pixel_row \<Rightarrow> string \<times> cached_pixel" where
  "mirror e =
     (case e of ((x, y), r) \<Rightarrow>
        (cache_key x y,
         \<lparr>cp_x = x, cp_y = y, cp_color = row_color r, cp_placed_by = row_placed_by r,
          cp_placed_at = row_placed_at r\<rparr>))"

text \<open>
  Invariants. \<open>hist_ok\<close>: the ids of the placement log increase and are bounded by
  the AUTOINCREMENT counter. \<open>coherent\<close>: the primary key is unique, the cache is
  the mirror image of the cell table, and the log is well formed. \<open>consistent\<close>:
  coherent and initialised. \<open>count_ok\<close>: the occupied count equals the number of
  cache entries.
\<close>

definition hist_ok :: "database \<Rightarrow> bool" where
  "hist_ok s \<longleftrightarrow>
     sorted_wrt (<) (map hist_id (pixel_history s)) \<and>
     list_all (\<lambda>r. hist_id r \<le> history_seq s) (pixel_history s)"

definition coherent :: "database \<Rightarrow> bool" where
  "coherent s \<longleftrightarrow>
     distinct (map fst (pixels s)) \<and> cache_pixels s = map mirror (pixels s) \<and> hist_ok s"

definition consistent :: "database \<Rightarrow> bool" where
  "consistent s \<longleftrightarrow> dbInitialized s \<and> coherent s"

definition count_ok :: "database \<Rightarrow> bool" where
  "count_ok s \<longleftrightarrow> cache_count s = int (length (cache_pixels s))"

text \<open>
  Named parts of the transactions: the body of \<open>transactions.placePixel\<close> before
  \<open>maybePruneHistory\<close>, one round of the loop of \<open>transactions.placeBatch\<close>, the body
  of \<open>transactions.placeBatch\<close> before \<open>maybePruneHistory\<close>, one round of \<open>importTx\<close> and
  one round of \<open>transactions.bulkImport\<close>.
\<close>

definition place_body :: "int \<Rightarrow> int \<Rightarrow> string \<Rightarrow> string option \<Rightarrow> int \<Rightarrow> database \<Rightarrow> database" where
  "place_body x y c addr now s =
     (let s1 = setPixel x y c addr now s;
          s2 = addHistory x y c addr now s1;
          s3 = count_user addr 1 now s2;
          k = cache_key x y;
          s4 = (if \<not> cache_has k s3 then s3\<lparr>cache_count := cache_count s3 + 1\<rparr> else s3)
      in cache_set k \<lparr>cp_x = x, cp_y = y, cp_color = c, cp_placed_by = addr,
                        cp_placed_at = now\<rparr> s4)"

definition batch_step :: "int \<Rightarrow> int \<Rightarrow> string \<Rightarrow> string option \<Rightarrow> int \<Rightarrow> database \<Rightarrow> database" where
  "batch_step x y c addr now s =
     cache_set (cache_key x y)
       \<lparr>cp_x = x, cp_y = y, cp_color = c, cp_placed_by = addr, cp_placed_at = now\<rparr>
       (addHistory x y c addr now (setPixel x y c addr now s))"

definition batch_body :: "(int \<times> int \<times> string) list \<Rightarrow> string option \<Rightarrow> int \<Rightarrow> database \<Rightarrow> database" where
  "batch_body ps addr now s =
     (let (s1, newCount) = placeBatch_loop ps addr now (s, 0);
          s2 = count_user addr (int (length ps)) now s1
      in s2\<lparr>cache_count := cache_count s2 + newCount\<rparr>)"

definition import_step :: "int \<Rightarrow> int \<Rightarrow> string \<Rightarrow> int \<Rightarrow> database \<Rightarrow> database" where
  "import_step x y c now s =
     cache_set (cache_key x y)
       \<lparr>cp_x = x, cp_y = y, cp_color = c, cp_placed_by = None, cp_placed_at = now\<rparr>
       (setPixel x y c None now s)"

definition bulk_step :: "int \<Rightarrow> int \<Rightarrow> string \<Rightarrow> int \<Rightarrow> database \<Rightarrow> database" where
  "bulk_step x y c now s =
     (let s1 = setPixel x y c None now s;
          k = cache_key x y;
          s2 = (if \<not> cache_has k s1 then s1\<lparr>cache_count := cache_count s1 + 1\<rparr> else s1)
      in cache_set k \<lparr>cp_x = x, cp_y = y, cp_color = c, cp_placed_by = None,
                        cp_placed_at = now\<rparr> s2)"

text \<open>
  The state of \<open>initDatabase\<close> after the rows of the file have been loaded into the
  cache, before the embedded backup is looked at.
\<close>

definition loaded :: "disk \<Rightarrow> database" where
  "loaded d =
     (load_rows (disk_pixels d)
        (module_state\<lparr>pixels := disk_pixels d, pixel_history := disk_history d,
           history_seq := disk_seq d, users := disk_users d,
           canvas_snapshots := disk_snapshots d\<rparr>))
       \<lparr>cache_count := int (length (disk_pixels d)), cache_initialized := True\<rparr>"

text \<open>A fresh installation: an empty database file and no embedded backup.\<close>

definition empty_disk :: disk where
  "empty_disk = \<lparr>disk_pixels = [], disk_history = [], disk_seq = 0, disk_users = [],
                  disk_snapshots = []\<rparr>"

definition fresh :: database where
  "fresh = initDatabase empty_disk None 0 module_state"

text \<open>
  Sequences of mutations through \<open>databaseAPI\<close>; a failing call ends the
  sequence with its error.
\<close>

datatype mutation =
    Place int int string "string option" int
  | PlaceBatch "(int \<times> int \<times> string) list" "string option" int
  | Erase int int "string option" int

fun apply_mutation :: "mutation \<Rightarrow> database \<Rightarrow> error + database" where
  "apply_mutation (Place x y c addr now) s = placePixel x y c addr now s"
| "apply_mutation (PlaceBatch ps addr now) s = placePixelsBatch ps addr now s"
| "apply_mutation (Erase x y admin now) s = erasePixel x y admin now s"

fun run :: "mutation list \<Rightarrow> database \<Rightarrow> error + database" where
  "run [] s = Inr s"
| "run (m # ms) s = (case apply_mutation m s of Inl e \<Rightarrow> Inl e | Inr s' \<Rightarrow> run ms s')"

fun is_place :: "mutation \<Rightarrow> bool" where
  "is_place (Place x y c addr now) = True"
| "is_place m = False"

text \<open>
  The log is within its bound: at most the ceiling plus the number of counted
  calls since the last truncation check.
\<close>

definition log_bound :: "database \<Rightarrow> bool" where
  "log_bound s \<longleftrightarrow>
     placementsSincePrune s < PRUNE_CHECK_INTERVAL \<and>
     length (pixel_history s) \<le> HISTORY_MAX_ENTRIES + placementsSincePrune s"

text \<open>The default canvas of \<open>config/index.js\<close>, and a state holding one pixel.\<close>

definition default_config :: canvas_config where
  "default_config = \<lparr>canvas_width = 220, canvas_height = 150, openMode = False\<rparr>"

definition one_pixel :: database where
  "one_pixel = tx_placePixel 1 2 ''#ff0000'' (Some ''0xab'') 10 (fresh\<lparr>transactions := True\<rparr>)"

text \<open>
  A database file whose placement log is exactly at the ceiling (100000 rows,
  ids 1 to 100000), and the state after \<open>initDatabase\<close> on it.
\<close>

definition full_log_disk :: disk where
  "full_log_disk =
     \<lparr>disk_pixels = [], disk_history = map (log_row 0 0 ''#000000'' None 0) [1..<100001],
      disk_seq = 100000, disk_users = [], disk_snapshots = []\<rparr>"

definition full_log :: database where
  "full_log = initDatabase full_log_disk None 0 module_state"

section \<open>WebSocket server (websocket/index.js)\<close>

subsection \<open>Connections, messages and effects\<close>

datatype ready_state = CONNECTING | OPEN | CLOSING | CLOSED

text \<open>The decoded token, \<open>ws.user\<close>.\<close>

record ws_user =
  address :: string
  chainId :: int
  isAuthorized :: bool
  isAdmin :: bool

text \<open>
  A connection object \<open>ws\<close> with the fields the server sets on it. A field that is
  still \<open>undefined\<close> is \<open>None\<close> (\<open>isAlive\<close> is only ever negated, so \<open>undefined\<close> is
  \<open>False\<close>). \<open>registered\<close> tells whether the connection handler got as far as
  registering the \<open>message\<close>, \<open>close\<close> and \<open>pong\<close> listeners.
\<close>

record socket =
  readyState :: ready_state
  clientIP :: "string option"
  user :: "ws_user option"
  isAlive :: bool
  lastActivity :: "int option"
  registered :: bool

text \<open>The \<open>data\<close> of an outbound message.\<close>

datatype payload =
    Welcome nat status bool
  | ErrorMessage string "string option"
  | PongData "int option" int
  | PixelEvent int int "string option" "string option"
  | BatchEvent "(int \<times> int \<times> string \<times> string option) list"
  | StatusEvent status

text \<open>A message of the shared channel: \<open>{ type, data, origin }\<close>.\<close>

record bus_message =
  bm_type :: string
  bm_data :: payload
  bm_origin :: "string option"

text \<open>
  What a handler does to the outside: \<open>ws.close(code, reason)\<close>, \<open>ws.terminate()\<close>,
  \<open>ws.ping()\<close>, \<open>ws.send\<close> of \<open>{ type, data }\<close>, \<open>redisPub.publish\<close> and
  \<open>jwt.verify\<close>, in the order of the calls.
\<close>

datatype effect =
    Close nat nat string
  | Terminate nat
  | Ping nat
  | Send nat string payload
  | Publish string bus_message
  | JwtVerify string

text \<open>
  The module state: \<open>wss\<close> (whether the server object exists) with its set
  \<open>wss.clients\<close>, the map \<open>connsByIP\<close> from a source address to its set of
  connections, whether \<open>redisPub\<close> is set, \<open>global.__instanceId\<close>, and the
  process id.
\<close>

record ws_server =
  wss :: bool
  clients :: "(nat \<times> socket) list"
  connsByIP :: "(string \<times> nat list) list"
  redisPub :: bool
  instanceId :: "string option"
  pid :: int

text \<open>\<open>MAX_PER_IP\<close> and \<open>MAX_TOTAL\<close>, read from the environment.\<close>

record ws_limits =
  MAX_PER_IP :: nat
  MAX_TOTAL :: nat

definition CHANNEL :: string where
  "CHANNEL = ''drawingboard:broadcast''"

text \<open>Client frames: \<open>JSON.parse\<close> of a frame fails, or yields \<open>{ type, data }\<close>.\<close>

datatype json_data =
    NoData
  | PingData "int option"
  | PixelData "int option" "int option" "string option"
  | BatchData "(int option \<times> int option \<times> string option) list"

datatype frame = Malformed | Message string json_data

subsection \<open>The transport library\<close>

text \<open>
  The \<open>ws\<close> library adds an accepted socket to \<open>wss.clients\<close> before it emits
  \<open>connection\<close>, marks a socket \<open>CLOSING\<close> on \<open>close()\<close> and \<open>terminate()\<close>, and
  removes it from \<open>wss.clients\<close> when its \<open>close\<close> event fires.
\<close>

definition new_socket :: socket where
  "new_socket = \<lparr>readyState = OPEN, clientIP = None, user = None, isAlive = False,
                  lastActivity = None, registered = False\<rparr>"

definition accept :: "nat \<Rightarrow> ws_server \<Rightarrow> ws_server" where
  "accept w st = st\<lparr>clients := AList.update w new_socket (clients st)\<rparr>"

definition set_socket :: "nat \<Rightarrow> (socket \<Rightarrow> socket) \<Rightarrow> ws_server \<Rightarrow> ws_server" where
  "set_socket w f st =
     (case map_of (clients st) w of
        None \<Rightarrow> st
      | Some k \<Rightarrow> st\<lparr>clients := AList.update w (f k) (clients st)\<rparr>)"

definition closing :: "nat \<Rightarrow> ws_server \<Rightarrow> ws_server" where
  "closing w st = set_socket w (\<lambda>k. k\<lparr>readyState := CLOSING\<rparr>) st"

subsection \<open>Admission\<close>

definition ip_count :: "string \<Rightarrow> ws_server \<Rightarrow> nat" where
  "ip_count ip st = (case map_of (connsByIP st) ip of None \<Rightarrow> 0 | Some c \<Rightarrow> length c)"

datatype admission = Admit | Refuse string

definition canConnect :: "ws_limits \<Rightarrow> string \<Rightarrow> ws_server \<Rightarrow> admission" where
  "canConnect lim ip st =
     (if wss st \<and> length (clients st) \<ge> MAX_TOTAL lim then Refuse ''Server full''
      else if ip_count ip st \<ge> MAX_PER_IP lim then Refuse ''Too many connections''
      else Admit)"

text \<open>\<open>if (!connsByIP.has(ip)) connsByIP.set(ip, new Set()); connsByIP.get(ip).add(ws)\<close>.\<close>

definition add_conn :: "string \<Rightarrow> nat \<Rightarrow> (string \<times> nat list) list \<Rightarrow> (string \<times> nat list) list" where
  "add_conn ip w m =
     (let c = (case map_of m ip of None \<Rightarrow> [] | Some c \<Rightarrow> c)
      in AList.update ip (if w \<in> set c then c else c @ [w]) m)"

text \<open>\<open>connsByIP.get(ip)?.delete(ws)\<close>.\<close>

definition del_conn :: "string \<Rightarrow> nat \<Rightarrow> (string \<times> nat list) list \<Rightarrow> (string \<times> nat list) list" where
  "del_conn ip w m =
     (case map_of m ip of None \<Rightarrow> m | Some c \<Rightarrow> AList.update ip (removeAll w c) m)"

text \<open>\<open>send(ws, type, data)\<close>: only an open socket is written to.\<close>

definition send :: "nat \<Rightarrow> string \<Rightarrow> payload \<Rightarrow> ws_server \<Rightarrow> effect list" where
  "send w ty d st =
     (case map_of (clients st) w of
        None \<Rightarrow> []
      | Some k \<Rightarrow> if readyState k = OPEN then [Send w ty d] else [])"

text \<open>
  The \<open>connection\<close> handler for socket \<open>w\<close> from source address \<open>ip\<close> with the
  \<open>token\<close> URL parameter. \<open>verify\<close> is \<open>jwt.verify\<close> under the configured secret
  (\<open>None\<close> when it throws); \<open>db\<close> is read for the status of the welcome message.
\<close>

definition on_connection ::
  "ws_limits \<Rightarrow> (string \<Rightarrow> ws_user option) \<Rightarrow> canvas_config \<Rightarrow> database \<Rightarrow> int \<Rightarrow>
     nat \<Rightarrow> string \<Rightarrow> string option \<Rightarrow> ws_server \<Rightarrow> effect list \<times> ws_server" where
  "on_connection lim verify cfg db now w ip token st =
     (case canConnect lim ip st of
        Refuse reason \<Rightarrow> ([Close w 1013 reason], closing w st)
      | Admit \<Rightarrow>
          let st1 = st\<lparr>connsByIP := add_conn ip w (connsByIP st)\<rparr>;
              st2 = set_socket w (\<lambda>k. k\<lparr>clientIP := Some ip\<rparr>) st1;
              tok = (case token of None \<Rightarrow> [] | Some t \<Rightarrow> t);
              checked = (if tok \<noteq> [] then [JwtVerify tok] else []);
              decoded = (if tok \<noteq> [] then verify tok else None)
          in if tok \<noteq> [] \<and> decoded = None
             then (checked @ [Close w 1008 ''Invalid token''],
                   closing w (st2\<lparr>connsByIP := del_conn ip w (connsByIP st2)\<rparr>))
             else
               let st3 = set_socket w (\<lambda>k. k\<lparr>user := decoded\<rparr>) st2;
                   hello = send w ''welcome''
                     (Welcome (length (clients st3)) (getStatus cfg db) (decoded \<noteq> None)) st3;
                   st4 = set_socket w
                     (\<lambda>k. k\<lparr>registered := True, isAlive := True, lastActivity := Some now\<rparr>) st3
               in (checked @ hello, st4))"

text \<open>A connection attempt: the library accepts the socket, then the handler runs.\<close>

definition connect ::
  "ws_limits \<Rightarrow> (string \<Rightarrow> ws_user option) \<Rightarrow> canvas_config \<Rightarrow> database \<Rightarrow> int \<Rightarrow>
     nat \<Rightarrow> string \<Rightarrow> string option \<Rightarrow> ws_server \<Rightarrow> effect list \<times> ws_server" where
  "connect lim verify cfg db now w ip token st =
     on_connection lim verify cfg db now w ip token (accept w st)"

text \<open>
  The \<open>close\<close> event of socket \<open>w\<close>: the library drops it from \<open>wss.clients\<close>, and
  the listener, if registered, drops it from \<open>connsByIP\<close> and deletes an entry
  that became empty.
\<close>

definition on_close :: "nat \<Rightarrow> ws_server \<Rightarrow> ws_server" where
  "on_close w st =
     (case map_of (clients st) w of
        None \<Rightarrow> st
      | Some k \<Rightarrow>
          let st1 = st\<lparr>clients := AList.delete w (clients st)\<rparr>
          in if registered k then
               (case clientIP k of
                  None \<Rightarrow> st1
                | Some ip \<Rightarrow>
                    let m = del_conn ip w (connsByIP st1)
                    in st1\<lparr>connsByIP :=
                         (case map_of m ip of
                            None \<Rightarrow> m
                          | Some c \<Rightarrow> if c = [] then AList.delete ip m else m)\<rparr>)
             else st1)"




subsection \<open>Broadcast\<close>

definition getInstanceId :: "int \<Rightarrow> ws_server \<Rightarrow> string \<times> ws_server" where
  "getInstanceId now st =
     (case instanceId st of
        Some i \<Rightarrow> (i, st)
      | None \<Rightarrow>
          let i = number_string (pid st) @ ''-'' @ number_string now
          in (i, st\<lparr>instanceId := Some i\<rparr>))"

definition broadcastLocal :: "string \<Rightarrow> payload \<Rightarrow> ws_server \<Rightarrow> effect list" where
  "broadcastLocal ty d st =
     (if \<not> wss st then []
      else map (\<lambda>(w, k). Send w ty d) (filter (\<lambda>(w, k). readyState k = OPEN) (clients st)))"

definition broadcast :: "string \<Rightarrow> payload \<Rightarrow> int \<Rightarrow> ws_server \<Rightarrow> effect list \<times> ws_server" where
  "broadcast ty d now st =
     (let local = broadcastLocal ty d st
      in if redisPub st then
           (let (i, st') = getInstanceId now st
            in (local @ [Publish CHANNEL \<lparr>bm_type = ty, bm_data = d, bm_origin = Some i\<rparr>], st'))
         else (local, st))"

text \<open>
  The \<open>message\<close> listener of \<open>redisSub\<close>: \<open>msg\<close> is \<open>None\<close> when \<open>JSON.parse\<close> or the
  destructuring throws.
\<close>

definition on_redis_message ::
  "string \<Rightarrow> bus_message option \<Rightarrow> int \<Rightarrow> ws_server \<Rightarrow> effect list \<times> ws_server" where
  "on_redis_message ch msg now st =
     (if ch \<noteq> CHANNEL then ([], st)
      else
        (case msg of
           None \<Rightarrow> ([], st)
         | Some m \<Rightarrow>
             let (i, st') = getInstanceId now st
             in if bm_origin m \<noteq> Some i
                then (broadcastLocal (bm_type m) (bm_data m) st', st')
                else ([], st')))"

subsection \<open>Client messages\<close>

text \<open>\<open>ws.user?.address || (config.openMode ? 'anonymous' : null)\<close>.\<close>

definition acting_user :: "canvas_config \<Rightarrow> ws_user option \<Rightarrow> string option" where
  "acting_user cfg u =
     (let anon = (if openMode cfg then Some ''anonymous'' else None)
      in case u of None \<Rightarrow> anon | Some v \<Rightarrow> if address v \<noteq> [] then Some (address v) else anon)"

text \<open>\<open>!config.openMode && (!ws.user || !ws.user.isAuthorized)\<close>.\<close>

definition auth_required :: "canvas_config \<Rightarrow> ws_user option \<Rightarrow> bool" where
  "auth_required cfg u \<longleftrightarrow>
     \<not> openMode cfg \<and> (case u of None \<Rightarrow> True | Some v \<Rightarrow> \<not> isAuthorized v)"

definition error_message :: "error \<Rightarrow> string" where
  "error_message e = ''Database not initialized. Call initDatabase() first.''"

text \<open>
  The two broadcasts that follow a committed write: the event itself, then the
  status (\<open>checkAndUpdateFullnessState\<close> always returns a status).
\<close>

definition announce ::
  "canvas_config \<Rightarrow> string \<Rightarrow> payload \<Rightarrow> int \<Rightarrow> database \<Rightarrow> ws_server \<Rightarrow> effect list \<times> ws_server" where
  "announce cfg ty d now db st =
     (let (es1, st1) = broadcast ty d now st;
          (es2, st2) = broadcast ''status'' (StatusEvent (getStatus cfg db)) now st1
      in (es1 @ es2, st2))"

definition handlePixel ::
  "canvas_config \<Rightarrow> int \<Rightarrow> nat \<Rightarrow> json_data \<Rightarrow> database \<times> ws_server \<Rightarrow>
     effect list \<times> database \<times> ws_server" where
  "handlePixel cfg now w d dbst =
     (let db = fst dbst; st = snd dbst;
          u = (case map_of (clients st) w of None \<Rightarrow> None | Some k \<Rightarrow> user k)
      in case d of
           PixelData (Some x) (Some y) col \<Rightarrow>
             if auth_required cfg u
             then (send w ''error'' (ErrorMessage ''Auth required'' (Some ''AUTH_REQUIRED'')) st,
                   db, st)
             else
               let who = acting_user cfg u;
                   c = (case col of None \<Rightarrow> [] | Some v \<Rightarrow> v)
               in if c = [] then
                    (if \<not> (case u of None \<Rightarrow> False | Some v \<Rightarrow> isAdmin v)
                     then (send w ''error'' (ErrorMessage ''Admin required'' (Some ''NOT_ADMIN'')) st,
                           db, st)
                     else
                       (case erasePixel x y who now db of
                          Inl e \<Rightarrow> (send w ''error'' (ErrorMessage (error_message e) None) st, db, st)
                        | Inr db' \<Rightarrow>
                            let (es, st') = announce cfg ''pixel'' (PixelEvent x y None who) now db' st
                            in (es, db', st')))
                  else
                    (case placePixel x y c who now db of
                       Inl e \<Rightarrow> (send w ''error'' (ErrorMessage (error_message e) None) st, db, st)
                     | Inr db' \<Rightarrow>
                         let (es, st') = announce cfg ''pixel'' (PixelEvent x y (Some c) who) now db' st
                         in (es, db', st'))
         | _ \<Rightarrow> (send w ''error'' (ErrorMessage ''Invalid data'' None) st, db, st))"

text \<open>
  \<open>data.pixels.filter(p => typeof p.x === 'number' && typeof p.y === 'number'
  && p.color)\<close>.
\<close>

fun valid_pixels :: "(int option \<times> int option \<times> string option) list \<Rightarrow> (int \<times> int \<times> string) list" where
  "valid_pixels [] = []"
| "valid_pixels ((Some x, Some y, Some c) # ps) =
     (if c \<noteq> [] then (x, y, c) # valid_pixels ps else valid_pixels ps)"
| "valid_pixels (p # ps) = valid_pixels ps"

definition handleBatch ::
  "canvas_config \<Rightarrow> int \<Rightarrow> nat \<Rightarrow> json_data \<Rightarrow> database \<times> ws_server \<Rightarrow>
     effect list \<times> database \<times> ws_server" where
  "handleBatch cfg now w d dbst =
     (let db = fst dbst; st = snd dbst;
          u = (case map_of (clients st) w of None \<Rightarrow> None | Some k \<Rightarrow> user k);
          ps = (case d of BatchData l \<Rightarrow> l | _ \<Rightarrow> [])
      in if ps = [] then (send w ''error'' (ErrorMessage ''Invalid batch'' None) st, db, st)
         else if auth_required cfg u
         then (send w ''error'' (ErrorMessage ''Auth required'' (Some ''AUTH_REQUIRED'')) st, db, st)
         else
           let who = acting_user cfg u; valid = valid_pixels ps
           in if valid \<noteq> [] then
                (case placePixelsBatch valid who now db of
                   Inl e \<Rightarrow> (send w ''error'' (ErrorMessage (error_message e) None) st, db, st)
                 | Inr db' \<Rightarrow>
                     let (es, st') = announce cfg ''batch''
                       (BatchEvent (map (\<lambda>(x, y, c). (x, y, c, who)) valid)) now db' st
                     in (es, db', st'))
              else ([], db, st))"

definition handleMessage ::
  "canvas_config \<Rightarrow> int \<Rightarrow> nat \<Rightarrow> string \<Rightarrow> json_data \<Rightarrow> database \<times> ws_server \<Rightarrow>
     effect list \<times> database \<times> ws_server" where
  "handleMessage cfg now w ty d dbst =
     (if ty = ''ping''
      then (send w ''pong'' (PongData (case d of PingData t \<Rightarrow> t | _ \<Rightarrow> None) now) (snd dbst),
            fst dbst, snd dbst)
      else if ty = ''pixel'' then handlePixel cfg now w d dbst
      else if ty = ''batch'' then handleBatch cfg now w d dbst
      else ([], fst dbst, snd dbst))"

text \<open>
  The \<open>message\<close> listener of a connection. A frame that \<open>JSON.parse\<close> rejects
  throws inside the \<open>try\<close> before the activity fields are written.
\<close>

definition on_message ::
  "canvas_config \<Rightarrow> int \<Rightarrow> nat \<Rightarrow> frame \<Rightarrow> database \<times> ws_server \<Rightarrow>
     effect list \<times> database \<times> ws_server" where
  "on_message cfg now w fr dbst =
     (case map_of (clients (snd dbst)) w of
        None \<Rightarrow> ([], fst dbst, snd dbst)
      | Some k \<Rightarrow>
          if \<not> registered k then ([], fst dbst, snd dbst)
          else
            (case fr of
               Malformed \<Rightarrow> ([], fst dbst, snd dbst)
             | Message ty d \<Rightarrow>
                 handleMessage cfg now w ty d
                   (fst dbst,
                    set_socket w (\<lambda>k. k\<lparr>isAlive := True, lastActivity := Some now\<rparr>)
                      (snd dbst))))"

text \<open>The \<open>pong\<close> listener of a connection.\<close>

definition on_pong :: "int \<Rightarrow> nat \<Rightarrow> ws_server \<Rightarrow> ws_server" where
  "on_pong now w st =
     set_socket w (\<lambda>k. if registered k then k\<lparr>isAlive := True, lastActivity := Some now\<rparr> else k) st"

subsection \<open>Heartbeat\<close>

text \<open>
  One round of the heartbeat timer body for one socket: \<open>now - ws.lastActivity\<close>
  is \<open>NaN\<close> while \<open>lastActivity\<close> is undefined, and \<open>NaN > 60000\<close> is false.
\<close>

definition heartbeat_socket :: "int \<Rightarrow> nat \<times> socket \<Rightarrow> effect list \<times> (nat \<times> socket)" where
  "heartbeat_socket now e =
     (let w = fst e; k = snd e
      in if \<not> isAlive k \<and> (case lastActivity k of None \<Rightarrow> False | Some t \<Rightarrow> now - t > 60000)
         then ([Terminate w], (w, k\<lparr>readyState := CLOSING\<rparr>))
         else ([Ping w], (w, k\<lparr>isAlive := False\<rparr>)))"

definition heartbeat :: "int \<Rightarrow> ws_server \<Rightarrow> effect list \<times> ws_server" where
  "heartbeat now st =
     (concat (map (\<lambda>e. fst (heartbeat_socket now e)) (clients st)),
      st\<lparr>clients := map (\<lambda>e. snd (heartbeat_socket now e)) (clients st)\<rparr>)"

text \<open>
  A run of the server: connection attempts, client frames, pong replies, close
  events and timer rounds, each with the time at which it happens.
\<close>

datatype event =
    Connect int nat string "string option"
  | Frame int nat frame
  | PongReply int nat
  | Heartbeat int
  | Closed nat

fun step ::
  "ws_limits \<Rightarrow> (string \<Rightarrow> ws_user option) \<Rightarrow> canvas_config \<Rightarrow> event \<Rightarrow>
     database \<times> ws_server \<Rightarrow> effect list \<times> database \<times> ws_server" where
  "step lim verify cfg (Connect now w ip token) dbst =
     (let (es, st) = connect lim verify cfg (fst dbst) now w ip token (snd dbst)
      in (es, fst dbst, st))"
| "step lim verify cfg (Frame now w fr) dbst = on_message cfg now w fr dbst"
| "step lim verify cfg (PongReply now w) dbst = ([], fst dbst, on_pong now w (snd dbst))"
| "step lim verify cfg (Heartbeat now) dbst =
     (let (es, st) = heartbeat now (snd dbst) in (es, fst dbst, st))"
| "step lim verify cfg (Closed w) dbst = ([], fst dbst, on_close w (snd dbst))"

fun steps ::
  "ws_limits \<Rightarrow> (string \<Rightarrow> ws_user option) \<Rightarrow> canvas_config \<Rightarrow> event list \<Rightarrow>
     database \<times> ws_server \<Rightarrow> effect list \<times> database \<times> ws_server" where
  "steps lim verify cfg [] dbst = ([], dbst)"
| "steps lim verify cfg (e # es) dbst =
     (let (out1, dbst1) = step lim verify cfg e dbst;
          (out2, dbst2) = steps lim verify cfg es dbst1
      in (out1 @ out2, dbst2))"

text \<open>A started server without connections, and the token decoder of an example.\<close>

definition idle_server :: ws_server where
  "idle_server = \<lparr>wss = True, clients = [], connsByIP = [], redisPub = False,
                   instanceId = None, pid = 4242\<rparr>"

definition member_token :: "string \<Rightarrow> ws_user option" where
  "member_token tok =
     (if tok = ''member''
      then Some \<lparr>address = ''0xab'', chainId = 1, isAuthorized = True, isAdmin = False\<rparr>
      else None)"

definition default_limits :: ws_limits where
  "default_limits = \<lparr>MAX_PER_IP = 10, MAX_TOTAL = 10000\<rparr>"

text \<open>The server after one authorised member has connected as socket 1.\<close>

definition joined :: ws_server where
  "joined =
     snd (connect default_limits member_token default_config fresh 0 1 ''10.0.0.1''
            (Some ''member'') idle_server)"

section \<open>Replay Guard (services/nonceStore.js)\<close>

definition TTL :: int where
  "TTL = 10 * 60 * 1000"

text \<open>
  The module state: the local \<open>store\<close> (key to first-seen time), whether
  \<open>redisClient\<close> is set, and the table of the shared Redis server (key to expiry
  time), which other instances use as well.
\<close>

record nonce_store =
  store :: "(string \<times> int) list"
  redisClient :: bool
  redis :: "(string \<times> int) list"

text \<open>\<open>toLowerCase\<close> on the ASCII letters.\<close>

definition to_lower :: "char \<Rightarrow> char" where
  "to_lower c =
     (let n = (of_char c :: nat) in if 65 \<le> n \<and> n \<le> 90 then char_of (n + 32) else c)"

definition key :: "string \<Rightarrow> string \<Rightarrow> string" where
  "key addr nonce = ''nonce:'' @ map to_lower addr @ '':'' @ nonce"

datatype reason = expired_timestamp | nonce_reused

text \<open>The result object: \<open>{ valid: true }\<close> or \<open>{ valid: false, reason }\<close>.\<close>

datatype verdict = Valid | Invalid reason

text \<open>
  Redis \<open>SET k v PX ttl NX\<close> at time \<open>now\<close>: the key is set, and the reply is
  \<open>OK\<close> (\<open>True\<close>), when the table holds no live entry for it; otherwise nothing
  changes and the reply is nil.
\<close>

definition redis_set_nx :: "string \<Rightarrow> int \<Rightarrow> int \<Rightarrow> (string \<times> int) list \<Rightarrow> bool \<times> (string \<times> int) list" where
  "redis_set_nx k now ttl tbl =
     (case map_of tbl k of
        None \<Rightarrow> (True, AList.update k (now + ttl) tbl)
      | Some e \<Rightarrow> if now < e then (False, tbl) else (True, AList.update k (now + ttl) tbl))"

text \<open>
  \<open>checkAndUseNonce(address, nonce, timestamp)\<close> at server time \<open>now\<close>. \<open>ts\<close> is
  \<open>parseInt(timestamp, 10)\<close>, \<open>None\<close> for \<open>NaN\<close>; \<open>up\<close> tells whether the call to
  Redis returns (otherwise it throws, the error is logged, and the local store
  decides).
\<close>

definition checkAndUseNonce ::
  "string \<Rightarrow> string \<Rightarrow> int option \<Rightarrow> int \<Rightarrow> bool \<Rightarrow> nonce_store \<Rightarrow> verdict \<times> nonce_store" where
  "checkAndUseNonce addr nonce ts now up g =
     (let k = key addr nonce
      in if (case ts of None \<Rightarrow> True | Some t \<Rightarrow> \<bar>now - t\<bar> > 5 * 60 * 1000)
         then (Invalid expired_timestamp, g)
         else if redisClient g \<and> up then
           (let (ok, tbl) = redis_set_nx k now TTL (redis g)
            in (if ok then Valid else Invalid nonce_reused, g\<lparr>redis := tbl\<rparr>))
         else if map_of (store g) k \<noteq> None then (Invalid nonce_reused, g)
         else (Valid, g\<lparr>store := AList.update k now (store g)\<rparr>))"

text \<open>The periodic cleanup of the local store, and \<open>setRedisClient\<close>.\<close>

definition cleanup :: "int \<Rightarrow> nonce_store \<Rightarrow> nonce_store" where
  "cleanup now g = g\<lparr>store := filter (\<lambda>(k, ts). \<not> now - ts > TTL) (store g)\<rparr>"

definition setRedisClient :: "nonce_store \<Rightarrow> nonce_store" where
  "setRedisClient g = g\<lparr>redisClient := True\<rparr>"

text \<open>What happens to the guard over time: checks and cleanups, each with its time.\<close>

datatype guard_event =
    Check string string "int option" int bool
  | Cleanup int

fun guard_step :: "guard_event \<Rightarrow> nonce_store \<Rightarrow> nonce_store" where
  "guard_step (Check addr nonce ts now up) g = snd (checkAndUseNonce addr nonce ts now up g)"
| "guard_step (Cleanup now) g = cleanup now g"

fun event_time :: "guard_event \<Rightarrow> int" where
  "event_time (Check addr nonce ts now up) = now"
| "event_time (Cleanup now) = now"

text \<open>The table that decides a check: the shared one, or the local store.\<close>

definition shared :: "nonce_store \<Rightarrow> bool \<Rightarrow> bool" where
  "shared g up \<longleftrightarrow> redisClient g \<and> up"

text \<open>The key is unused in the table that decides the check at time \<open>now\<close>.\<close>

definition unused :: "string \<Rightarrow> int \<Rightarrow> bool \<Rightarrow> nonce_store \<Rightarrow> bool" where
  "unused k now up g =
     (if shared g up then (case map_of (redis g) k of None \<Rightarrow> True | Some e \<Rightarrow> e \<le> now)
      else map_of (store g) k = None)"

definition in_window :: "int option \<Rightarrow> int \<Rightarrow> bool" where
  "in_window ts now = (case ts of None \<Rightarrow> False | Some t \<Rightarrow> \<bar>now - t\<bar> \<le> 5 * 60 * 1000)"

definition local_guard :: nonce_store where
  "local_guard = \<lparr>store = [], redisClient = False, redis = []\<rparr>"

definition shared_guard :: nonce_store where
  "shared_guard = \<lparr>store = [], redisClient = True, redis = []\<rparr>"

section \<open>Auxiliary notions for the WebSocket server and the Replay Guard\<close>




definition publishing :: ws_server where
  "publishing = joined\<lparr>redisPub := True, instanceId := Some ''4242-7''\<rparr>"

text \<open>
  The key stays consumed from time \<open>t0\<close> on: the shared table holds it with an
  expiry of at least \<open>t0 + TTL\<close> (\<open>sh\<close>), or the local store holds it with a
  first-seen time of at least \<open>t0\<close>.
\<close>

definition held :: "string \<Rightarrow> int \<Rightarrow> bool \<Rightarrow> nonce_store \<Rightarrow> bool" where
  "held k t0 sh g =
     (if sh then (case map_of (redis g) k of None \<Rightarrow> False | Some e \<Rightarrow> t0 + TTL \<le> e)
      else (case map_of (store g) k of None \<Rightarrow> False | Some v \<Rightarrow> t0 \<le> v))"

section \<open>Properties of the Cell Store and State Cache\<close>

subsection \<open>Basic facts\<close>

lemma getTransactions_ok:
  "dbInitialized s \<Longrightarrow> getTransactions s = Inr (s\<lparr>transactions := True\<rparr>)"
  by (cases s) (simp add: getTransactions_def ensureInitialized_def)

lemma tx_erase_absent:
  assumes "map_of (cache_pixels s) (cache_key x y) = None"
  shows "tx_erase x y admin now s =
           s\<lparr>pixels := AList.delete (x, y) (pixels s),
             pixel_history := pixel_history s @
               [\<lparr>hist_id = Suc (history_seq s), hist_x = x, hist_y = y, hist_color = ''ERASED'',
                 hist_placed_by = admin, hist_placed_at = now\<rparr>],
             history_seq := Suc (history_seq s)\<rparr>"
  using assms by (simp add: tx_erase_def deletePixel_def addHistory_def cache_has_def Let_def)

subsection \<open>Cache keys are injective\<close>

lemma digits_nonempty: "digits n \<noteq> []"
  by (subst digits.simps) simp

lemma digit_char_inj: "d < 10 \<Longrightarrow> e < 10 \<Longrightarrow> digit_char d = digit_char e \<Longrightarrow> d = e"
  by (simp add: digit_char_def char_of_eq_iff take_bit_eq_mod)

lemma digit_char_code: "d < 10 \<Longrightarrow> of_char (digit_char d) = (48 + d :: nat)"
  by (simp add: digit_char_def)

lemma digit_char_not_comma: "d < 10 \<Longrightarrow> digit_char d \<noteq> CHR '',''"
proof
  assume "d < 10" and "digit_char d = CHR '',''"
  then have "(of_char (digit_char d) :: nat) = of_char (CHR '','')" by simp
  with \<open>d < 10\<close> show False by (simp add: digit_char_code)
qed

lemma digit_char_not_minus: "d < 10 \<Longrightarrow> digit_char d \<noteq> CHR ''-''"
proof
  assume "d < 10" and "digit_char d = CHR ''-''"
  then have "(of_char (digit_char d) :: nat) = of_char (CHR ''-'')" by simp
  with \<open>d < 10\<close> show False by (simp add: digit_char_code)
qed

lemma digits_set: "c \<in> set (digits n) \<Longrightarrow> \<exists>d<10. c = digit_char d"
proof (induction n rule: digits.induct)
  case (1 n)
  show ?case
  proof (cases "n < 10")
    case True
    with "1.prems" show ?thesis by (subst (asm) digits.simps) auto
  next
    case False
    with "1.prems" have "c \<in> set (digits (n div 10)) \<or> c = digit_char (n mod 10)"
      by (subst (asm) digits.simps) auto
    then show ?thesis
    proof
      assume "c \<in> set (digits (n div 10))"
      with "1.IH" False show ?thesis by blast
    next
      assume "c = digit_char (n mod 10)"
      moreover have "n mod 10 < 10" by simp
      ultimately show ?thesis by blast
    qed
  qed
qed

lemma digits_inj: "digits n = digits m \<Longrightarrow> n = m"
proof (induction n arbitrary: m rule: digits.induct)
  case (1 n)
  show ?case
  proof (cases "n < 10")
    case n: True
    show ?thesis
    proof (cases "m < 10")
      case True
      with n "1.prems" show ?thesis
        by (subst (asm) digits.simps, subst (asm) (2) digits.simps) (simp add: digit_char_inj)
    next
      case False
      with n "1.prems" have "[digit_char n] = digits (m div 10) @ [digit_char (m mod 10)]"
        by (subst (asm) digits.simps, subst (asm) (2) digits.simps) simp
      then show ?thesis using digits_nonempty [of "m div 10"] by auto
    qed
  next
    case n: False
    show ?thesis
    proof (cases "m < 10")
      case True
      with n "1.prems" have "digits (n div 10) @ [digit_char (n mod 10)] = [digit_char m]"
        by (subst (asm) digits.simps, subst (asm) (2) digits.simps) simp
      then show ?thesis using digits_nonempty [of "n div 10"] by auto
    next
      case False
      with n "1.prems" have eq: "digits (n div 10) = digits (m div 10)"
        and last: "digit_char (n mod 10) = digit_char (m mod 10)"
        by (subst (asm) digits.simps, subst (asm) (2) digits.simps, simp)+
      from "1.IH" [OF n eq] have "n div 10 = m div 10" .
      moreover from last have "n mod 10 = m mod 10" by (simp add: digit_char_inj)
      ultimately show ?thesis by (metis div_mult_mod_eq)
    qed
  qed
qed

lemma digits_no_comma: "CHR '','' \<notin> set (digits n)"
proof
  assume "CHR '','' \<in> set (digits n)"
  then obtain d where "d < 10" and "CHR '','' = digit_char d" using digits_set by blast
  then show False using digit_char_not_comma [of d] by simp
qed

lemma digits_no_minus: "CHR ''-'' \<notin> set (digits n)"
proof
  assume "CHR ''-'' \<in> set (digits n)"
  then obtain d where "d < 10" and "CHR ''-'' = digit_char d" using digits_set by blast
  then show False using digit_char_not_minus [of d] by simp
qed

lemma number_string_no_comma: "CHR '','' \<notin> set (number_string i)"
  by (simp add: number_string_def digits_no_comma)

lemma number_string_inj: "number_string i = number_string j \<Longrightarrow> i = j"
proof -
  assume eq: "number_string i = number_string j"
  have hd_digits: "\<And>n. hd (digits n) \<noteq> CHR ''-''"
    using digits_no_minus digits_nonempty by (metis hd_in_set)
  show ?thesis
  proof (cases "i < 0")
    case i: True
    show ?thesis
    proof (cases "j < 0")
      case True
      with i eq have "digits (nat (- i)) = digits (nat (- j))" by (simp add: number_string_def)
      then have "nat (- i) = nat (- j)" by (rule digits_inj)
      with i True show ?thesis by simp
    next
      case False
      with i eq have "CHR ''-'' # digits (nat (- i)) = digits (nat j)"
        by (simp add: number_string_def)
      then have "hd (digits (nat j)) = CHR ''-''" by (metis list.sel(1))
      with hd_digits show ?thesis by blast
    qed
  next
    case i: False
    show ?thesis
    proof (cases "j < 0")
      case True
      with i eq have "digits (nat i) = CHR ''-'' # digits (nat (- j))"
        by (simp add: number_string_def)
      then have "hd (digits (nat i)) = CHR ''-''" by (metis list.sel(1))
      with hd_digits show ?thesis by blast
    next
      case False
      with i eq have "digits (nat i) = digits (nat j)" by (simp add: number_string_def)
      then have "nat i = nat j" by (rule digits_inj)
      with i False show ?thesis by simp
    qed
  qed
qed

lemma split_at_separator:
  "c \<notin> set xs \<Longrightarrow> c \<notin> set xs' \<Longrightarrow> xs @ c # ys = xs' @ c # ys' \<Longrightarrow> xs = xs' \<and> ys = ys'"
proof (induction xs arbitrary: xs')
  case Nil
  then show ?case by (cases xs') auto
next
  case (Cons a xs)
  then show ?case by (cases xs') auto
qed

lemma cache_key_inj: "cache_key x y = cache_key x' y' \<longleftrightarrow> x = x' \<and> y = y'"
proof
  assume "cache_key x y = cache_key x' y'"
  then have "number_string x = number_string x' \<and> number_string y = number_string y'"
    unfolding cache_key_def
    by (intro split_at_separator [of "CHR '',''"]) (simp_all add: number_string_no_comma)
  then show "x = x' \<and> y = y'" by (simp add: number_string_inj)
qed simp

subsection \<open>The cache as mirror image of the cell table\<close>

lemma mirror_simp:
  "mirror ((x, y), r) =
     (cache_key x y,
      \<lparr>cp_x = x, cp_y = y, cp_color = row_color r, cp_placed_by = row_placed_by r,
       cp_placed_at = row_placed_at r\<rparr>)"
  by (simp add: mirror_def)

lemma fst_mirror: "fst (mirror ((x, y), r)) = cache_key x y"
  by (simp add: mirror_def)

lemma map_of_mirror:
  "map_of (map mirror al) (cache_key x y) =
     map_option (\<lambda>r. snd (mirror ((x, y), r))) (map_of al (x, y))"
  by (induction al) (auto simp: mirror_def cache_key_inj)

lemma update_mirror:
  "AList.update (cache_key x y) (snd (mirror ((x, y), r))) (map mirror al) =
     map mirror (AList.update (x, y) r al)"
  by (induction al) (auto simp: mirror_def cache_key_inj)

lemma delete_mirror:
  "AList.delete (cache_key x y) (map mirror al) = map mirror (AList.delete (x, y) al)"
  by (induction al) (auto simp: mirror_def cache_key_inj)

lemma hist_ok_append:
  assumes "hist_ok s"
  shows "hist_ok (s\<lparr>pixel_history := pixel_history s @ [r\<lparr>hist_id := Suc (history_seq s)\<rparr>],
                   history_seq := Suc (history_seq s)\<rparr>)"
  using assms
  by (auto simp: hist_ok_def sorted_wrt_append list_all_iff le_imp_less_Suc intro: le_SucI)

lemma maybePrune_fields:
  "pixels (maybePruneHistory s) = pixels s"
  "cache_pixels (maybePruneHistory s) = cache_pixels s"
  "cache_count (maybePruneHistory s) = cache_count s"
  "history_seq (maybePruneHistory s) = history_seq s"
  "users (maybePruneHistory s) = users s"
  "canvas_snapshots (maybePruneHistory s) = canvas_snapshots s"
  "dbInitialized (maybePruneHistory s) = dbInitialized s"
  "transactions (maybePruneHistory s) = transactions s"
  "cache_initialized (maybePruneHistory s) = cache_initialized s"
  by (simp_all add: maybePruneHistory_def pruneHistory_def Let_def split: option.splits)

lemma maybePrune_counter:
  "placementsSincePrune (maybePruneHistory s) =
     (if Suc (placementsSincePrune s) < PRUNE_CHECK_INTERVAL then Suc (placementsSincePrune s) else 0)"
  by (simp add: maybePruneHistory_def pruneHistory_def Let_def split: option.splits)

lemma maybePrune_history_cases:
  "pixel_history (maybePruneHistory s) = pixel_history s \<or>
   (\<exists>p. pixel_history (maybePruneHistory s) = filter (\<lambda>r. \<not> hist_id r \<le> p) (pixel_history s))"
  by (auto simp: maybePruneHistory_def pruneHistory_def Let_def split: option.splits)

lemma hist_ok_maybePrune: "hist_ok s \<Longrightarrow> hist_ok (maybePruneHistory s)"
  using maybePrune_history_cases [of s]
  by (auto simp: hist_ok_def maybePrune_fields sorted_wrt_filter list_all_iff sorted_wrt_map
      intro: sorted_wrt_filter)

subsection \<open>Single placement\<close>

lemma count_user_fields:
  "pixels (count_user a n now s) = pixels s"
  "cache_pixels (count_user a n now s) = cache_pixels s"
  "cache_count (count_user a n now s) = cache_count s"
  "pixel_history (count_user a n now s) = pixel_history s"
  "history_seq (count_user a n now s) = history_seq s"
  "placementsSincePrune (count_user a n now s) = placementsSincePrune s"
  "dbInitialized (count_user a n now s) = dbInitialized s"
  "transactions (count_user a n now s) = transactions s"
  by (simp_all add: count_user_def upsertUser_def incUserPixels_def split: option.splits)

lemma tx_placePixel_fields:
  "pixels (tx_placePixel x y c a now s) =
     AList.update (x, y) \<lparr>row_color = c, row_placed_by = a, row_placed_at = now\<rparr> (pixels s)"
  "cache_pixels (tx_placePixel x y c a now s) =
     AList.update (cache_key x y)
       \<lparr>cp_x = x, cp_y = y, cp_color = c, cp_placed_by = a, cp_placed_at = now\<rparr> (cache_pixels s)"
  "cache_count (tx_placePixel x y c a now s) =
     (if map_of (cache_pixels s) (cache_key x y) = None then cache_count s + 1 else cache_count s)"
  "history_seq (tx_placePixel x y c a now s) = Suc (history_seq s)"
  "dbInitialized (tx_placePixel x y c a now s) = dbInitialized s"
  "transactions (tx_placePixel x y c a now s) = transactions s"
  "placementsSincePrune (tx_placePixel x y c a now s) =
     (if Suc (placementsSincePrune s) < PRUNE_CHECK_INTERVAL then Suc (placementsSincePrune s) else 0)"
  by (simp_all add: tx_placePixel_def Let_def maybePrune_fields maybePrune_counter
      count_user_fields cache_set_def cache_has_def setPixel_def addHistory_def)

lemma tx_placePixel_body: "tx_placePixel x y c a now s = maybePruneHistory (place_body x y c a now s)"
  by (simp add: tx_placePixel_def place_body_def Let_def)

lemma place_body_history:
  "pixel_history (place_body x y c a now s) =
     pixel_history s @ [log_row x y c a now (Suc (history_seq s))]"
  "history_seq (place_body x y c a now s) = Suc (history_seq s)"
  "placementsSincePrune (place_body x y c a now s) = placementsSincePrune s"
  by (simp_all add: place_body_def Let_def count_user_fields cache_set_def cache_has_def
      setPixel_def addHistory_def log_row_def)

lemma hist_ok_appended:
  assumes "hist_ok s"
    and "pixel_history t = pixel_history s @ [log_row x y c a now (Suc (history_seq s))]"
    and "history_seq t = Suc (history_seq s)"
  shows "hist_ok t"
  using assms
  by (auto simp: hist_ok_def sorted_wrt_append list_all_iff log_row_def le_imp_less_Suc
      intro: le_SucI)

lemma hist_ok_tx_placePixel: "hist_ok s \<Longrightarrow> hist_ok (tx_placePixel x y c a now s)"
  unfolding tx_placePixel_body
  by (rule hist_ok_maybePrune, rule hist_ok_appended [where s = s]) (simp_all add: place_body_history)

lemma consistent_tx_placePixel:
  assumes "consistent s"
  shows "consistent (tx_placePixel x y c a now s)"
proof -
  have "AList.update (cache_key x y)
          \<lparr>cp_x = x, cp_y = y, cp_color = c, cp_placed_by = a, cp_placed_at = now\<rparr>
          (map mirror (pixels s)) =
        map mirror (AList.update (x, y)
          \<lparr>row_color = c, row_placed_by = a, row_placed_at = now\<rparr> (pixels s))"
    using update_mirror [of x y "\<lparr>row_color = c, row_placed_by = a, row_placed_at = now\<rparr>" "pixels s"]
    by (simp add: mirror_def)
  with assms show ?thesis
    by (simp add: consistent_def coherent_def tx_placePixel_fields distinct_update hist_ok_tx_placePixel)
qed

lemma length_update:
  "length (AList.update k v al) = (if map_of al k = None then Suc (length al) else length al)"
  by (induction al) auto

lemma update_fresh: "map_of al k = None \<Longrightarrow> AList.update k v al = al @ [(k, v)]"
  by (induction al) (auto split: if_splits)

lemma length_delete_distinct:
  "distinct (map fst al) \<Longrightarrow> map_of al k \<noteq> None \<Longrightarrow> Suc (length (AList.delete k al)) = length al"
proof (induction al)
  case Nil
  then show ?case by simp
next
  case (Cons p al)
  show ?case
  proof (cases "fst p = k")
    case True
    with Cons.prems have "k \<notin> fst ` set al" by auto
    with True show ?thesis by (cases p) simp
  next
    case False
    with Cons show ?thesis by (cases p) auto
  qed
qed

lemma keys_mirror:
  "map fst (map mirror al) = map (\<lambda>k. cache_key (fst k) (snd k)) (map fst al)"
  by (induction al) (auto simp: mirror_def)

lemma inj_cache_key: "inj (\<lambda>k. cache_key (fst k) (snd k))"
  by (auto simp: inj_on_def cache_key_inj prod_eq_iff)

lemma distinct_mirror:
  assumes "distinct (map fst al)"
  shows "distinct (map fst (map mirror al))"
proof -
  have "inj_on (\<lambda>k. cache_key (fst k) (snd k)) (set (map fst al))"
    by (rule inj_on_subset [OF inj_cache_key]) simp
  with assms show ?thesis
    unfolding keys_mirror distinct_map [of "\<lambda>k. cache_key (fst k) (snd k)"] by blast
qed

lemma consistent_cache_distinct: "consistent s \<Longrightarrow> distinct (map fst (cache_pixels s))"
  using distinct_mirror [of "pixels s"] by (simp add: consistent_def coherent_def)

lemma consistent_transactions [simp]: "consistent (s\<lparr>transactions := b\<rparr>) = consistent s"
  by (simp add: consistent_def coherent_def hist_ok_def)

lemma count_ok_transactions [simp]: "count_ok (s\<lparr>transactions := b\<rparr>) = count_ok s"
  by (simp add: count_ok_def)

lemma count_ok_tx_placePixel: "count_ok s \<Longrightarrow> count_ok (tx_placePixel x y c a now s)"
  by (simp add: count_ok_def tx_placePixel_fields length_update)

subsection \<open>Batch placement\<close>

lemma placeBatch_loop_Cons:
  "placeBatch_loop ((x, y, c) # ps) a now (s, n) =
     placeBatch_loop ps a now
       (batch_step x y c a now s,
        if map_of (cache_pixels s) (cache_key x y) = None then n + 1 else n)"
  by (simp add: batch_step_def Let_def cache_has_def setPixel_def addHistory_def)

lemma batch_step_fields:
  "pixels (batch_step x y c a now s) =
     AList.update (x, y) \<lparr>row_color = c, row_placed_by = a, row_placed_at = now\<rparr> (pixels s)"
  "cache_pixels (batch_step x y c a now s) =
     AList.update (cache_key x y)
       \<lparr>cp_x = x, cp_y = y, cp_color = c, cp_placed_by = a, cp_placed_at = now\<rparr> (cache_pixels s)"
  "cache_count (batch_step x y c a now s) = cache_count s"
  "pixel_history (batch_step x y c a now s) =
     pixel_history s @ [log_row x y c a now (Suc (history_seq s))]"
  "history_seq (batch_step x y c a now s) = Suc (history_seq s)"
  "placementsSincePrune (batch_step x y c a now s) = placementsSincePrune s"
  "dbInitialized (batch_step x y c a now s) = dbInitialized s"
  "transactions (batch_step x y c a now s) = transactions s"
  by (simp_all add: batch_step_def cache_set_def setPixel_def addHistory_def log_row_def)

lemma mirror_update_row:
  "AList.update (cache_key x y)
     \<lparr>cp_x = x, cp_y = y, cp_color = c, cp_placed_by = a, cp_placed_at = now\<rparr>
     (map mirror al) =
   map mirror (AList.update (x, y) \<lparr>row_color = c, row_placed_by = a, row_placed_at = now\<rparr> al)"
  using update_mirror [of x y "\<lparr>row_color = c, row_placed_by = a, row_placed_at = now\<rparr>" al]
  by (simp add: mirror_def)

lemma consistent_batch_step: "consistent s \<Longrightarrow> consistent (batch_step x y c a now s)"
  by (simp add: consistent_def coherent_def batch_step_fields distinct_update mirror_update_row
      hist_ok_appended [where s = s])

lemma placeBatch_loop_consistent:
  "consistent s \<Longrightarrow> consistent (fst (placeBatch_loop ps a now (s, n)))"
proof (induction ps arbitrary: s n)
  case Nil
  then show ?case by simp
next
  case (Cons p ps)
  obtain x y c where p: "p = (x, y, c)" by (cases p)
  show ?case
    unfolding p placeBatch_loop_Cons
    by (rule Cons.IH) (rule consistent_batch_step [OF Cons.prems])
qed

lemma placeBatch_loop_count:
  "snd (placeBatch_loop ps a now (s, n)) =
     n + int (length (cache_pixels (fst (placeBatch_loop ps a now (s, n))))) -
       int (length (cache_pixels s)) \<and>
   cache_count (fst (placeBatch_loop ps a now (s, n))) = cache_count s \<and>
   placementsSincePrune (fst (placeBatch_loop ps a now (s, n))) = placementsSincePrune s \<and>
   dbInitialized (fst (placeBatch_loop ps a now (s, n))) = dbInitialized s \<and>
   transactions (fst (placeBatch_loop ps a now (s, n))) = transactions s \<and>
   length (pixel_history (fst (placeBatch_loop ps a now (s, n)))) =
     length (pixel_history s) + length ps"
proof (induction ps arbitrary: s n)
  case Nil
  then show ?case by simp
next
  case (Cons p ps)
  obtain x y c where p: "p = (x, y, c)" by (cases p)
  show ?case
    unfolding p placeBatch_loop_Cons
    using Cons.IH [of "batch_step x y c a now s"
        "if map_of (cache_pixels s) (cache_key x y) = None then n + 1 else n"]
    by (simp add: batch_step_fields length_update)
qed

lemma tx_placeBatch_body: "tx_placeBatch ps a now s = maybePruneHistory (batch_body ps a now s)"
  by (simp add: tx_placeBatch_def batch_body_def Let_def split: prod.splits)

lemma consistent_count_user: "consistent (count_user a n now s) = consistent s"
  by (simp add: consistent_def coherent_def hist_ok_def count_user_fields)

lemma consistent_cache_count [simp]: "consistent (s\<lparr>cache_count := n\<rparr>) = consistent s"
  by (simp add: consistent_def coherent_def hist_ok_def)

lemma consistent_maybePrune: "consistent s \<Longrightarrow> consistent (maybePruneHistory s)"
  by (simp add: consistent_def coherent_def maybePrune_fields hist_ok_maybePrune)

lemma count_ok_maybePrune: "count_ok (maybePruneHistory s) = count_ok s"
  by (simp add: count_ok_def maybePrune_fields)

lemma consistent_tx_placeBatch: "consistent s \<Longrightarrow> consistent (tx_placeBatch ps a now s)"
  unfolding tx_placeBatch_body
  using placeBatch_loop_consistent [of s ps a now 0]
  by (auto intro!: consistent_maybePrune
      simp: batch_body_def Let_def consistent_count_user split: prod.splits)

lemma count_ok_tx_placeBatch: "count_ok s \<Longrightarrow> count_ok (tx_placeBatch ps a now s)"
  unfolding tx_placeBatch_body count_ok_maybePrune
  using placeBatch_loop_count [of ps a now s 0]
  by (auto simp: batch_body_def Let_def count_ok_def count_user_fields split: prod.splits)

subsection \<open>Erase\<close>

lemma tx_erase_fields:
  "pixels (tx_erase x y a now s) = AList.delete (x, y) (pixels s)"
  "cache_pixels (tx_erase x y a now s) = AList.delete (cache_key x y) (cache_pixels s)"
  "pixel_history (tx_erase x y a now s) =
     pixel_history s @ [log_row x y ''ERASED'' a now (Suc (history_seq s))]"
  "history_seq (tx_erase x y a now s) = Suc (history_seq s)"
  "placementsSincePrune (tx_erase x y a now s) = placementsSincePrune s"
  "dbInitialized (tx_erase x y a now s) = dbInitialized s"
  "transactions (tx_erase x y a now s) = transactions s"
  by (simp_all add: tx_erase_def Let_def deletePixel_def addHistory_def cache_has_def log_row_def
      map_of_eq_None_iff)

lemma tx_erase_count:
  "cache_count (tx_erase x y a now s) =
     (if map_of (cache_pixels s) (cache_key x y) = None then cache_count s else cache_count s - 1)"
  by (simp add: tx_erase_def Let_def deletePixel_def addHistory_def cache_has_def)

lemma consistent_tx_erase: "consistent s \<Longrightarrow> consistent (tx_erase x y a now s)"
  by (simp add: consistent_def coherent_def tx_erase_fields distinct_delete delete_mirror
      hist_ok_appended [where s = s])

lemma count_ok_tx_erase:
  assumes "consistent s" and "count_ok s"
  shows "count_ok (tx_erase x y a now s)"
proof (cases "map_of (cache_pixels s) (cache_key x y) = None")
  case True
  with assms(2) show ?thesis
    by (simp add: count_ok_def tx_erase_fields tx_erase_count map_of_eq_None_iff)
next
  case False
  from length_delete_distinct [OF consistent_cache_distinct [OF assms(1)] False]
  have "int (length (AList.delete (cache_key x y) (cache_pixels s))) =
        int (length (cache_pixels s)) - 1" by linarith
  with assms(2) False show ?thesis
    by (simp add: count_ok_def tx_erase_fields tx_erase_count)
qed

subsection \<open>Bulk import, clear, snapshot\<close>

lemma tx_bulkImport_Cons:
  "tx_bulkImport ((x, y, c) # ps) now s = tx_bulkImport ps now (bulk_step x y c now s)"
  by (simp add: bulk_step_def Let_def)

lemma bulk_step_fields:
  "pixels (bulk_step x y c now s) =
     AList.update (x, y) \<lparr>row_color = c, row_placed_by = None, row_placed_at = now\<rparr> (pixels s)"
  "cache_pixels (bulk_step x y c now s) =
     AList.update (cache_key x y)
       \<lparr>cp_x = x, cp_y = y, cp_color = c, cp_placed_by = None, cp_placed_at = now\<rparr>
       (cache_pixels s)"
  "cache_count (bulk_step x y c now s) =
     (if map_of (cache_pixels s) (cache_key x y) = None then cache_count s + 1 else cache_count s)"
  "pixel_history (bulk_step x y c now s) = pixel_history s"
  "history_seq (bulk_step x y c now s) = history_seq s"
  "placementsSincePrune (bulk_step x y c now s) = placementsSincePrune s"
  "dbInitialized (bulk_step x y c now s) = dbInitialized s"
  "transactions (bulk_step x y c now s) = transactions s"
  by (simp_all add: bulk_step_def Let_def cache_has_def cache_set_def setPixel_def)

lemma consistent_bulk_step: "consistent s \<Longrightarrow> consistent (bulk_step x y c now s)"
  by (simp add: consistent_def coherent_def hist_ok_def bulk_step_fields distinct_update mirror_update_row)

lemma import_step_fields:
  "pixels (import_step x y c now s) =
     AList.update (x, y) \<lparr>row_color = c, row_placed_by = None, row_placed_at = now\<rparr> (pixels s)"
  "cache_pixels (import_step x y c now s) =
     AList.update (cache_key x y)
       \<lparr>cp_x = x, cp_y = y, cp_color = c, cp_placed_by = None, cp_placed_at = now\<rparr>
       (cache_pixels s)"
  "cache_count (import_step x y c now s) = cache_count s"
  "pixel_history (import_step x y c now s) = pixel_history s"
  "history_seq (import_step x y c now s) = history_seq s"
  "placementsSincePrune (import_step x y c now s) = placementsSincePrune s"
  "dbInitialized (import_step x y c now s) = dbInitialized s"
  "transactions (import_step x y c now s) = transactions s"
  by (simp_all add: import_step_def cache_set_def setPixel_def)

lemma consistent_import_step: "consistent s \<Longrightarrow> consistent (import_step x y c now s)"
  by (simp add: consistent_def coherent_def hist_ok_def import_step_fields distinct_update mirror_update_row)

lemma consistent_tx_bulkImport: "consistent s \<Longrightarrow> consistent (tx_bulkImport ps now s)"
proof (induction ps arbitrary: s)
  case Nil
  then show ?case by simp
next
  case (Cons p ps)
  obtain x y c where p: "p = (x, y, c)" by (cases p)
  show ?case
    unfolding p tx_bulkImport_Cons
    by (rule Cons.IH) (rule consistent_bulk_step [OF Cons.prems])
qed

lemma count_ok_tx_bulkImport: "count_ok s \<Longrightarrow> count_ok (tx_bulkImport ps now s)"
proof (induction ps arbitrary: s)
  case Nil
  then show ?case by simp
next
  case (Cons p ps)
  obtain x y c where p: "p = (x, y, c)" by (cases p)
  show ?case
    unfolding p tx_bulkImport_Cons
    using Cons.prems by (intro Cons.IH) (simp add: count_ok_def bulk_step_fields length_update)
qed

lemma saveSnapshot_ok:
  "dbInitialized s \<Longrightarrow>
     saveSnapshot cfg now s = Inr (s\<lparr>canvas_snapshots := canvas_snapshots s @
       [\<lparr>snap_width = canvas_width cfg, snap_height = canvas_height cfg,
         snap_timestamp = now, snap_pixels = getAllPixels s\<rparr>]\<rparr>)"
  by (simp add: saveSnapshot_def ensureInitialized_def)

lemma consistent_snapshots [simp]: "consistent (s\<lparr>canvas_snapshots := v\<rparr>) = consistent s"
  by (simp add: consistent_def coherent_def hist_ok_def)

lemma count_ok_snapshots [simp]: "count_ok (s\<lparr>canvas_snapshots := v\<rparr>) = count_ok s"
  by (simp add: count_ok_def)

lemma consistent_cleared:
  "consistent s \<Longrightarrow> consistent (s\<lparr>pixels := [], cache_pixels := [], cache_count := 0\<rparr>)"
  by (simp add: consistent_def coherent_def hist_ok_def)

subsection \<open>Startup\<close>

lemma load_rows_fields:
  "pixels (load_rows rows s) = pixels s"
  "pixel_history (load_rows rows s) = pixel_history s"
  "history_seq (load_rows rows s) = history_seq s"
  "cache_count (load_rows rows s) = cache_count s"
  "placementsSincePrune (load_rows rows s) = placementsSincePrune s"
  "dbInitialized (load_rows rows s) = dbInitialized s"
  "transactions (load_rows rows s) = transactions s"
  by (induction rows s rule: load_rows.induct; simp add: cache_set_def)+

lemma load_rows_cache:
  "distinct (map fst (acc @ rows)) \<Longrightarrow> cache_pixels s = map mirror acc \<Longrightarrow>
     cache_pixels (load_rows rows s) = map mirror (acc @ rows)"
proof (induction rows s arbitrary: acc rule: load_rows.induct)
  case (1 s)
  then show ?case by simp
next
  case (2 x y r rows s)
  have fresh: "map_of acc (x, y) = None"
    using "2.prems"(1) by (auto simp: map_of_eq_None_iff)
  have "cache_pixels (cache_set (cache_key x y)
          \<lparr>cp_x = x, cp_y = y, cp_color = row_color r, cp_placed_by = row_placed_by r,
           cp_placed_at = row_placed_at r\<rparr> s) = map mirror (acc @ [((x, y), r)])"
    using update_mirror [of x y r acc] "2.prems"(2)
    by (simp add: cache_set_def update_fresh [OF fresh] mirror_simp)
  from "2.IH" [OF _ this] "2.prems"(1) show ?case by simp
qed

lemma importTx_Cons:
  "importTx ((x, y, c) # ps) now s = importTx ps now (import_step x y c now s)"
  by (simp add: import_step_def)

lemma coherent_import_step: "coherent s \<Longrightarrow> coherent (import_step x y c now s)"
  by (simp add: coherent_def hist_ok_def import_step_fields distinct_update mirror_update_row)

lemma importTx_coherent: "coherent s \<Longrightarrow> coherent (importTx ps now s)"
proof (induction ps arbitrary: s)
  case Nil
  then show ?case by simp
next
  case (Cons p ps)
  obtain x y c where p: "p = (x, y, c)" by (cases p)
  show ?case
    unfolding p importTx_Cons
    by (rule Cons.IH) (rule coherent_import_step [OF Cons.prems])
qed

lemma coherent_flags [simp]:
  "coherent (s\<lparr>cache_initialized := b\<rparr>) = coherent s"
  "coherent (s\<lparr>dbInitialized := b\<rparr>) = coherent s"
  "coherent (s\<lparr>transactions := b\<rparr>) = coherent s"
  "coherent (s\<lparr>cache_count := n\<rparr>) = coherent s"
  "coherent (s\<lparr>canvas_snapshots := v\<rparr>) = coherent s"
  "coherent (s\<lparr>users := u\<rparr>) = coherent s"
  by (simp_all add: coherent_def hist_ok_def)

lemma coherent_loaded:
  assumes "disk_ok d"
  shows "coherent
     (load_rows (disk_pixels d)
        (module_state\<lparr>pixels := disk_pixels d, pixel_history := disk_history d,
           history_seq := disk_seq d, users := disk_users d,
           canvas_snapshots := disk_snapshots d\<rparr>))"
proof -
  let ?s1 = "module_state\<lparr>pixels := disk_pixels d, pixel_history := disk_history d,
           history_seq := disk_seq d, users := disk_users d,
           canvas_snapshots := disk_snapshots d\<rparr>"
  have "cache_pixels (load_rows (disk_pixels d) ?s1) = map mirror ([] @ disk_pixels d)"
    using assms by (intro load_rows_cache) (simp_all add: disk_ok_def module_state_def)
  with assms show ?thesis
    by (simp add: coherent_def hist_ok_def load_rows_fields disk_ok_def)
qed

lemma initDatabase_loaded:
  "initDatabase d backup now module_state =
     (if cache_count (loaded d) = 0 then
        (case backup of
           None \<Rightarrow> loaded d
         | Some ps \<Rightarrow>
             if length ps > 0 then (importTx ps now (loaded d))\<lparr>cache_count := int (length ps)\<rparr>
             else loaded d)
      else loaded d)\<lparr>dbInitialized := True\<rparr>"
proof -
  have "\<not> dbInitialized module_state" by (simp add: module_state_def)
  then show ?thesis by (simp add: initDatabase_def Let_def loaded_def split: option.splits)
qed

lemma coherent_loaded': "disk_ok d \<Longrightarrow> coherent (loaded d)"
  using coherent_loaded [of d] by (simp add: loaded_def)

lemma consistent_initDatabase:
  assumes "disk_ok d"
  shows "consistent (initDatabase d backup now module_state)"
  using coherent_loaded' [OF assms]
  by (simp add: consistent_def initDatabase_loaded importTx_coherent split: option.splits)

subsection \<open>Truncation keeps the newest rows\<close>

lemma filter_above_nth:
  fixes f :: "'a \<Rightarrow> nat"
  assumes sorted: "sorted_wrt (<) (map f h)" and m: "m < length h"
  shows "filter (\<lambda>r. \<not> f r \<le> f (h ! m)) h = drop (Suc m) h"
proof -
  have mono: "f (h ! i) < f (h ! j)" if "i < j" and "j < length h" for i j
    using sorted_wrt_nth_less [OF sorted, of i j] that by simp
  have low: "\<forall>r \<in> set (take (Suc m) h). \<not> \<not> f r \<le> f (h ! m)"
  proof
    fix r assume "r \<in> set (take (Suc m) h)"
    then obtain i where i: "i < length (take (Suc m) h)" and r: "r = take (Suc m) h ! i"
      by (auto simp: in_set_conv_nth)
    then have "i \<le> m" and "r = h ! i" by simp_all
    then show "\<not> \<not> f r \<le> f (h ! m)"
      using mono [of i m] m by (cases "i = m") auto
  qed
  have high: "\<forall>r \<in> set (drop (Suc m) h). \<not> f r \<le> f (h ! m)"
  proof
    fix r assume "r \<in> set (drop (Suc m) h)"
    then obtain i where i: "i < length (drop (Suc m) h)" and r: "r = drop (Suc m) h ! i"
      by (auto simp: in_set_conv_nth)
    then have "Suc m + i < length h" and "r = h ! (Suc m + i)" by simp_all
    then show "\<not> f r \<le> f (h ! m)" using mono [of m "Suc m + i"] by auto
  qed
  have "filter (\<lambda>r. \<not> f r \<le> f (h ! m)) (take (Suc m) h @ drop (Suc m) h) = drop (Suc m) h"
    unfolding filter_append using filter_False [OF low] filter_True [OF high] by simp
  then show ?thesis by simp
qed

lemma prune_pivot_sorted:
  assumes "sorted_wrt (<) (map hist_id h)" and "n < length h"
  shows "prune_pivot n h = Some (hist_id (h ! (length h - Suc n)))"
proof -
  have "sort (map hist_id h) = map hist_id h"
    using assms(1) by (simp add: sorted_sort_id strict_sorted_imp_sorted)
  with assms(2) show ?thesis
    by (simp add: prune_pivot_def Let_def rev_nth)
qed

lemma pruneHistory_drop:
  assumes "hist_ok s"
  shows "pixel_history (pruneHistory n s) = drop (length (pixel_history s) - n) (pixel_history s)"
proof (cases "n < length (pixel_history s)")
  case True
  from assms have sorted: "sorted_wrt (<) (map hist_id (pixel_history s))"
    by (simp add: hist_ok_def)
  have "length (pixel_history s) - Suc n < length (pixel_history s)" using True by simp
  from filter_above_nth [OF sorted this] True show ?thesis
    by (simp add: pruneHistory_def prune_pivot_sorted [OF sorted True] Suc_diff_Suc)
next
  case False
  then show ?thesis by (simp add: pruneHistory_def prune_pivot_def Let_def)
qed

lemma maybePrune_history:
  assumes "hist_ok s"
  shows "pixel_history (maybePruneHistory s) =
           (if Suc (placementsSincePrune s) < PRUNE_CHECK_INTERVAL then pixel_history s
            else drop (length (pixel_history s) - HISTORY_MAX_ENTRIES) (pixel_history s))"
proof -
  have ok: "hist_ok (s\<lparr>placementsSincePrune := 0\<rparr>)" using assms by (simp add: hist_ok_def)
  show ?thesis
    using pruneHistory_drop [OF ok, of HISTORY_MAX_ENTRIES]
    by (simp add: maybePruneHistory_def Let_def getHistoryCount_def)
qed

lemma drop_keeps_tail:
  "length ys \<le> n \<Longrightarrow> \<exists>old. drop (length (xs @ ys) - n) (xs @ ys) = old @ ys"
  by (rule exI [of _ "drop (length xs + length ys - n) xs"]) simp

lemma maybePrune_keeps_tail:
  assumes "hist_ok s" and "pixel_history s = xs @ ys" and "length ys \<le> HISTORY_MAX_ENTRIES"
  shows "\<exists>old. pixel_history (maybePruneHistory s) = old @ ys"
  using drop_keeps_tail [OF assms(3), of xs] assms(2)
  by (auto simp: maybePrune_history [OF assms(1)])

subsection \<open>Reachable states are consistent\<close>

lemma placePixel_ok:
  "dbInitialized s \<Longrightarrow>
     placePixel x y c a now s = Inr (tx_placePixel x y c a now (s\<lparr>transactions := True\<rparr>))"
  by (simp add: placePixel_def getTransactions_ok)

lemma erasePixel_ok:
  "dbInitialized s \<Longrightarrow>
     erasePixel x y a now s = Inr (tx_erase x y a now (s\<lparr>transactions := True\<rparr>))"
  by (simp add: erasePixel_def getTransactions_ok)

lemma placePixelsBatch_ok:
  "dbInitialized s \<Longrightarrow>
     placePixelsBatch ps a now s =
       Inr (if ps \<noteq> [] then tx_placeBatch ps a now (s\<lparr>transactions := True\<rparr>) else s)"
  by (simp add: placePixelsBatch_def getTransactions_ok)

lemma bulkImport_ok:
  "dbInitialized s \<Longrightarrow>
     bulkImport ps now s = Inr (tx_bulkImport ps now (s\<lparr>transactions := True\<rparr>))"
  by (simp add: bulkImport_def getTransactions_ok)

lemma clearCanvas_ok:
  "dbInitialized s \<Longrightarrow>
     clearCanvas cfg now s =
       Inr (s\<lparr>canvas_snapshots := canvas_snapshots s @
              [\<lparr>snap_width = canvas_width cfg, snap_height = canvas_height cfg,
                snap_timestamp = now, snap_pixels = getAllPixels s\<rparr>],
             pixels := [], cache_pixels := [], cache_count := 0\<rparr>)"
  by (simp add: clearCanvas_def saveSnapshot_ok databaseAPI_clearCanvas_def ensureInitialized_def)

lemma importCanvas_ok:
  "dbInitialized s \<Longrightarrow>
     importCanvas cfg ps now s =
       Inr (tx_bulkImport ps now
         (s\<lparr>canvas_snapshots := canvas_snapshots s @
              [\<lparr>snap_width = canvas_width cfg, snap_height = canvas_height cfg,
                snap_timestamp = now, snap_pixels = getAllPixels s\<rparr>],
             transactions := True\<rparr>))"
  by (simp add: importCanvas_def saveSnapshot_ok bulkImport_ok)

lemma consistentD: "consistent s \<Longrightarrow> dbInitialized s"
  by (simp add: consistent_def)

theorem reachable_consistent: "reachable s \<Longrightarrow> consistent s"
proof (induction rule: reachable.induct)
  case (start d backup now)
  then show ?case by (rule consistent_initDatabase)
next
  case (place s x y c addr now s')
  then show ?case
    by (auto simp: placePixel_ok [OF consistentD] intro!: consistent_tx_placePixel)
next
  case (batch s ps addr now s')
  then show ?case
    by (auto simp: placePixelsBatch_ok [OF consistentD] intro!: consistent_tx_placeBatch
        split: if_splits)
next
  case (erase s x y addr now s')
  then show ?case
    by (auto simp: erasePixel_ok [OF consistentD] intro!: consistent_tx_erase)
next
  case (clear s cfg now s')
  then show ?case
    by (auto simp: clearCanvas_ok [OF consistentD] consistent_def coherent_def hist_ok_def)
next
  case (imported s cfg ps now s')
  then show ?case
    by (auto simp: importCanvas_ok [OF consistentD] intro!: consistent_tx_bulkImport)
qed

subsection \<open>Placing the same pixel twice\<close>

lemma map_update_proj:
  "g v = g v' \<Longrightarrow>
     map (\<lambda>(k, p). (k, g p)) (AList.update k v al) =
     map (\<lambda>(k, p). (k, g p)) (AList.update k v' al)"
  by (induction al) auto

lemma tx_placePixel_twice_grid:
  "grid (tx_placePixel x y c a t2 (tx_placePixel x y c a t1 s)) = grid (tx_placePixel x y c a t1 s)"
  unfolding grid_def tx_placePixel_fields update_last
  by (rule map_update_proj [where g = "\<lambda>p. (cp_x p, cp_y p, cp_color p, cp_placed_by p)"]) simp

lemma tx_placePixel_twice_stored:
  "stored_grid (tx_placePixel x y c a t2 (tx_placePixel x y c a t1 s)) =
     stored_grid (tx_placePixel x y c a t1 s)"
  unfolding stored_grid_def tx_placePixel_fields update_last
  by (rule map_update_proj [where g = "\<lambda>r. (row_color r, row_placed_by r)"]) simp

lemma tx_placePixel_twice_count:
  "cache_count (tx_placePixel x y c a t2 (tx_placePixel x y c a t1 s)) =
     cache_count (tx_placePixel x y c a t1 s)"
  by (simp add: tx_placePixel_fields update_conv')

lemma HISTORY_MAX_ge: "1 \<le> HISTORY_MAX_ENTRIES" "2 \<le> HISTORY_MAX_ENTRIES"
  by (simp_all add: HISTORY_MAX_ENTRIES_def)

lemma hist_ok_place_body: "hist_ok s \<Longrightarrow> hist_ok (place_body x y c a now s)"
  by (rule hist_ok_appended [where s = s]) (simp_all add: place_body_history)

lemma tx_placePixel_log:
  assumes "hist_ok s" and "pixel_history s = xs @ ys" and "Suc (length ys) \<le> HISTORY_MAX_ENTRIES"
  shows "\<exists>old. pixel_history (tx_placePixel x y c a now s) =
           old @ ys @ [log_row x y c a now (Suc (history_seq s))]"
proof -
  have "pixel_history (place_body x y c a now s) =
          xs @ (ys @ [log_row x y c a now (Suc (history_seq s))])"
    by (simp add: place_body_history assms(2))
  from maybePrune_keeps_tail [OF hist_ok_place_body [OF assms(1)] this] assms(3)
  show ?thesis by (simp add: tx_placePixel_body)
qed

lemma tx_placePixel_length:
  assumes "Suc (placementsSincePrune s) < PRUNE_CHECK_INTERVAL"
  shows "length (pixel_history (tx_placePixel x y c a now s)) = Suc (length (pixel_history s))"
  using assms
  by (simp add: tx_placePixel_body maybePruneHistory_def Let_def place_body_history)

text \<open>
  Claim C5. From every reachable state, \<open>placePixel x y c a\<close> executed twice (at
  times \<open>t1\<close> and \<open>t2\<close>) succeeds both times and leaves the same observable grid
  as executing it once: the same cache entries and the same stored cells with
  their colors and writers, and the same occupied count. The placement log
  gains two rows instead of one: the AUTOINCREMENT counter advances by two, the
  newest two rows of the log are the two records of this placement (after one
  call only the newest one is), and when no truncation check falls on the two
  calls the log is longer by exactly two.
\<close>

theorem placePixel_twice:
  assumes "reachable s"
  shows "\<exists>s1 s2.
     placePixel x y c a t1 s = Inr s1 \<and> placePixel x y c a t2 s1 = Inr s2 \<and>
     grid s2 = grid s1 \<and> stored_grid s2 = stored_grid s1 \<and>
     getPixelCount s2 = getPixelCount s1 \<and>
     history_seq s1 = history_seq s + 1 \<and> history_seq s2 = history_seq s + 2 \<and>
     (\<exists>old. pixel_history s1 = old @ [log_row x y c a t1 (history_seq s + 1)]) \<and>
     (\<exists>old. pixel_history s2 =
        old @ [log_row x y c a t1 (history_seq s + 1), log_row x y c a t2 (history_seq s + 2)]) \<and>
     (placementsSincePrune s + 2 < PRUNE_CHECK_INTERVAL \<longrightarrow>
        length (pixel_history s1) = length (pixel_history s) + 1 \<and>
        length (pixel_history s2) = length (pixel_history s) + 2)"
proof -
  let ?s = "s\<lparr>transactions := True\<rparr>"
  let ?s1 = "tx_placePixel x y c a t1 ?s"
  let ?s2 = "tx_placePixel x y c a t2 ?s1"
  from assms have cons: "consistent s" by (rule reachable_consistent)
  then have init: "dbInitialized s" and hok: "hist_ok ?s"
    by (simp_all add: consistent_def coherent_def hist_ok_def)
  have r1: "placePixel x y c a t1 s = Inr ?s1" by (rule placePixel_ok [OF init])
  have tr1: "?s1\<lparr>transactions := True\<rparr> = ?s1"
    by (cases ?s1) (use tx_placePixel_fields(6) [of x y c a t1 ?s] in auto)
  have r2: "placePixel x y c a t2 ?s1 = Inr ?s2"
    using placePixel_ok [of ?s1 x y c a t2] init by (simp add: tx_placePixel_fields tr1)
  have hok1: "hist_ok ?s1" by (rule hist_ok_tx_placePixel [OF hok])
  have log1: "\<exists>old. pixel_history ?s1 = old @ [log_row x y c a t1 (history_seq s + 1)]"
    using tx_placePixel_log [OF hok, of "pixel_history s" "[]" x y c a t1] HISTORY_MAX_ge
    by simp
  then obtain old1 where old1: "pixel_history ?s1 = old1 @ [log_row x y c a t1 (history_seq s + 1)]"
    by blast
  have log2: "\<exists>old. pixel_history ?s2 =
      old @ [log_row x y c a t1 (history_seq s + 1), log_row x y c a t2 (history_seq s + 2)]"
    using tx_placePixel_log [OF hok1 old1, of x y c a t2] HISTORY_MAX_ge
    by (simp add: tx_placePixel_fields)
  have len: "placementsSincePrune s + 2 < PRUNE_CHECK_INTERVAL \<longrightarrow>
        length (pixel_history ?s1) = length (pixel_history s) + 1 \<and>
        length (pixel_history ?s2) = length (pixel_history s) + 2"
  proof
    assume small: "placementsSincePrune s + 2 < PRUNE_CHECK_INTERVAL"
    then have a: "Suc (placementsSincePrune ?s) < PRUNE_CHECK_INTERVAL" by simp
    then have b: "Suc (placementsSincePrune ?s1) < PRUNE_CHECK_INTERVAL"
      using small by (simp add: tx_placePixel_fields)
    show "length (pixel_history ?s1) = length (pixel_history s) + 1 \<and>
        length (pixel_history ?s2) = length (pixel_history s) + 2"
      using tx_placePixel_length [OF a, of x y c a t1] tx_placePixel_length [OF b, of x y c a t2]
      by simp
  qed
  show ?thesis
    apply (rule exI [of _ ?s1], rule exI [of _ ?s2])
    using r1 r2 log1 log2 len
    by (simp add: tx_placePixel_twice_grid tx_placePixel_twice_stored getPixelCount_def
        tx_placePixel_twice_count tx_placePixel_fields(4))
qed

subsection \<open>A fresh installation\<close>

lemma fresh_fields:
  "pixels fresh = []" "cache_pixels fresh = []" "cache_count fresh = 0"
  "pixel_history fresh = []" "history_seq fresh = 0" "placementsSincePrune fresh = 0"
  "dbInitialized fresh" "\<not> transactions fresh"
  unfolding fresh_def initDatabase_loaded
  by (simp_all add: loaded_def empty_disk_def module_state_def)

lemma reachable_fresh: "reachable fresh"
  unfolding fresh_def by (rule reachable.start) (simp add: disk_ok_def empty_disk_def)

theorem placePixel_twice_witness:
  "reachable fresh \<and>
   (\<exists>s1 s2.
     placePixel 1 2 ''#ff0000'' (Some ''0xab'') 10 fresh = Inr s1 \<and>
     placePixel 1 2 ''#ff0000'' (Some ''0xab'') 20 s1 = Inr s2 \<and>
     grid s2 = grid s1 \<and> stored_grid s2 = stored_grid s1 \<and>
     getPixelCount s2 = getPixelCount s1 \<and> history_seq s1 = 1 \<and> history_seq s2 = 2 \<and>
     (\<exists>old. pixel_history s1 = old @ [log_row 1 2 ''#ff0000'' (Some ''0xab'') 10 1]) \<and>
     (\<exists>old. pixel_history s2 =
        old @ [log_row 1 2 ''#ff0000'' (Some ''0xab'') 10 1,
               log_row 1 2 ''#ff0000'' (Some ''0xab'') 20 2]) \<and>
     length (pixel_history s1) = 1 \<and> length (pixel_history s2) = 2)"
  using placePixel_twice [OF reachable_fresh, of 1 2 "''#ff0000''" "Some ''0xab''" 10 20]
    reachable_fresh
  by (simp add: fresh_fields PRUNE_CHECK_INTERVAL_def numeral_2_eq_2)

subsection \<open>Export, clear, import\<close>

lemma getAllPixels_stored: "coherent s \<Longrightarrow> getAllPixels s = stored_cells s"
  by (simp add: coherent_def getAllPixels_def stored_cells_def mirror_def split_def)

lemma tx_bulkImport_pixels:
  "distinct (map fst (pixels t) @ map (\<lambda>(x, y, c). (x, y)) ps) \<Longrightarrow>
     pixels (tx_bulkImport ps now t) =
       pixels t @ map (\<lambda>(x, y, c). ((x, y),
         \<lparr>row_color = c, row_placed_by = None, row_placed_at = now\<rparr>)) ps"
proof (induction ps arbitrary: t)
  case Nil
  then show ?case by simp
next
  case (Cons p ps)
  obtain x y c where p: "p = (x, y, c)" by (cases p)
  from Cons.prems have fresh: "map_of (pixels t) (x, y) = None"
    by (auto simp: p map_of_eq_None_iff)
  have step: "pixels (bulk_step x y c now t) =
      pixels t @ [((x, y), \<lparr>row_color = c, row_placed_by = None, row_placed_at = now\<rparr>)]"
    by (simp add: bulk_step_fields update_fresh [OF fresh])
  have "distinct (map fst (pixels (bulk_step x y c now t)) @ map (\<lambda>(x, y, c). (x, y)) ps)"
    using Cons.prems by (auto simp: step p)
  from Cons.IH [OF this] show ?case
    unfolding p tx_bulkImport_Cons by (simp add: step)
qed

lemma stored_cells_coords:
  "map (\<lambda>(x, y, c). (x, y)) (stored_cells s) = map fst (pixels s)"
  by (simp add: stored_cells_def split_def)

text \<open>
  Claim C6. From every reachable state, \<open>exportCanvas\<close>, then \<open>clearCanvas\<close>, then
  \<open>importCanvas\<close> of the exported pixel list succeed and reproduce the exported
  occupied-cell set: a second export yields the same list of \<open>(x, y, color)\<close>
  triples, the cache and the cell table hold exactly that set, and the occupied
  count is its size.
\<close>

theorem export_clear_import:
  assumes "reachable s"
  shows "\<exists>s1 s2.
     clearCanvas cfg t1 s = Inr s1 \<and>
     importCanvas cfg (snap_pixels (exportCanvas cfg t0 s)) t2 s1 = Inr s2 \<and>
     snap_pixels (exportCanvas cfg t3 s2) = snap_pixels (exportCanvas cfg t0 s) \<and>
     set (getAllPixels s2) = set (getAllPixels s) \<and>
     set (stored_cells s2) = set (getAllPixels s) \<and>
     getPixelCount s2 = int (length (getAllPixels s))"
proof -
  from assms have cons: "consistent s" by (rule reachable_consistent)
  then have init: "dbInitialized s" and coh: "coherent s" by (simp_all add: consistent_def)
  define ps where "ps = getAllPixels s"
  define s1 where "s1 = s\<lparr>canvas_snapshots := canvas_snapshots s @
      [\<lparr>snap_width = canvas_width cfg, snap_height = canvas_height cfg,
        snap_timestamp = t1, snap_pixels = getAllPixels s\<rparr>],
      pixels := [], cache_pixels := [], cache_count := 0\<rparr>"
  define t where "t = s1\<lparr>canvas_snapshots := canvas_snapshots s1 @
      [\<lparr>snap_width = canvas_width cfg, snap_height = canvas_height cfg,
        snap_timestamp = t2, snap_pixels = getAllPixels s1\<rparr>],
      transactions := True\<rparr>"
  define s2 where "s2 = tx_bulkImport ps t2 t"
  have r1: "clearCanvas cfg t1 s = Inr s1"
    unfolding s1_def by (rule clearCanvas_ok [OF init])
  have init1: "dbInitialized s1" using init by (simp add: s1_def)
  have r2: "importCanvas cfg (snap_pixels (exportCanvas cfg t0 s)) t2 s1 = Inr s2"
    unfolding s2_def t_def ps_def using importCanvas_ok [OF init1, of cfg "getAllPixels s" t2]
    by (simp add: exportCanvas_def)
  have t_fields: "pixels t = []" "cache_pixels t = []" "cache_count t = 0" "dbInitialized t"
    "pixel_history t = pixel_history s" "history_seq t = history_seq s"
    using init by (simp_all add: t_def s1_def)
  have "coherent t" using coh by (simp add: coherent_def hist_ok_def t_fields)
  then have "consistent t" by (simp add: consistent_def t_fields)
  then have "consistent s2" unfolding s2_def by (rule consistent_tx_bulkImport)
  then have coh2: "coherent s2" by (simp add: consistent_def)
  have ps: "ps = stored_cells s" unfolding ps_def by (rule getAllPixels_stored [OF coh])
  have "distinct (map fst (pixels t) @ map (\<lambda>(x, y, c). (x, y)) ps)"
    using coh by (simp add: ps stored_cells_coords coherent_def t_fields)
  from tx_bulkImport_pixels [OF this, of t2]
  have st2: "stored_cells s2 = ps"
    by (simp add: s2_def stored_cells_def split_def comp_def t_fields)
  then have all2: "getAllPixels s2 = ps"
    using getAllPixels_stored [OF coh2] by simp
  have "count_ok t" by (simp add: count_ok_def t_fields)
  then have "count_ok s2" unfolding s2_def by (rule count_ok_tx_bulkImport)
  moreover have "length (cache_pixels s2) = length ps"
    using arg_cong [OF all2, of length] by (simp add: getAllPixels_def)
  ultimately have cnt: "getPixelCount s2 = int (length ps)"
    by (simp add: count_ok_def getPixelCount_def)
  have exp: "snap_pixels (exportCanvas cfg t3 s2) = snap_pixels (exportCanvas cfg t0 s)"
    using all2 by (simp add: exportCanvas_def ps_def)
  from r1 r2 exp all2 st2 cnt show ?thesis unfolding ps_def by auto
qed

subsection \<open>Erasing an unoccupied coordinate\<close>

text \<open>
  Claim C10. On an initialised database, \<open>erasePixel x y admin\<close> at a coordinate
  that the cache does not hold succeeds, leaves \<open>cache.pixels\<close> and the occupied
  count as they were (the count is not decremented), deletes nothing but a row
  of that coordinate from the cell table, and still appends one placement-log
  row whose color is the sentinel \<open>ERASED\<close>.
\<close>

theorem erasePixel_absent:
  assumes "dbInitialized s" and "getPixel x y s = None"
  shows "\<exists>s'. erasePixel x y admin now s = Inr s' \<and>
           cache_pixels s' = cache_pixels s \<and>
           getPixelCount s' = getPixelCount s \<and>
           pixels s' = AList.delete (x, y) (pixels s) \<and>
           pixel_history s' = pixel_history s @
             [\<lparr>hist_id = Suc (history_seq s), hist_x = x, hist_y = y, hist_color = ''ERASED'',
               hist_placed_by = admin, hist_placed_at = now\<rparr>]"
proof -
  have absent: "map_of (cache_pixels (s\<lparr>transactions := True\<rparr>)) (cache_key x y) = None"
    using assms(2) by (simp add: getPixel_def)
  show ?thesis
    by (simp add: erasePixel_def getTransactions_ok [OF assms(1)] tx_erase_absent [OF absent]
        getPixelCount_def)
qed

theorem erasePixel_absent_witness:
  "dbInitialized (module_state\<lparr>dbInitialized := True\<rparr>) \<and>
   getPixel 3 4 (module_state\<lparr>dbInitialized := True\<rparr>) = None \<and>
   (\<exists>s'. erasePixel 3 4 (Some ''0xadmin'') 7 (module_state\<lparr>dbInitialized := True\<rparr>) = Inr s' \<and>
      cache_pixels s' = [] \<and> getPixelCount s' = 0 \<and> pixels s' = [] \<and>
      pixel_history s' =
        [\<lparr>hist_id = 1, hist_x = 3, hist_y = 4, hist_color = ''ERASED'',
          hist_placed_by = Some ''0xadmin'', hist_placed_at = 7\<rparr>])"
proof -
  have h1: "dbInitialized (module_state\<lparr>dbInitialized := True\<rparr>)" by simp
  have h2: "getPixel 3 4 (module_state\<lparr>dbInitialized := True\<rparr>) = None"
    by (simp add: getPixel_def module_state_def)
  from erasePixel_absent [OF h1 h2, of "Some ''0xadmin''" 7] show ?thesis
    using h1 h2 by (simp add: module_state_def getPixelCount_def)
qed

lemma reachable_one_pixel: "reachable one_pixel"
  unfolding one_pixel_def
  by (rule reachable.place [OF reachable_fresh]) (simp add: placePixel_ok fresh_fields)

lemma one_pixel_cells: "getAllPixels one_pixel = [(1, 2, ''#ff0000'')]"
  by (simp add: getAllPixels_def one_pixel_def tx_placePixel_fields fresh_fields)

theorem export_clear_import_witness:
  "reachable one_pixel \<and>
   (\<exists>s1 s2.
      clearCanvas default_config 20 one_pixel = Inr s1 \<and>
      importCanvas default_config [(1, 2, ''#ff0000'')] 30 s1 = Inr s2 \<and>
      snap_pixels (exportCanvas default_config 40 s2) = [(1, 2, ''#ff0000'')] \<and>
      set (getAllPixels s2) = {(1, 2, ''#ff0000'')} \<and>
      set (stored_cells s2) = {(1, 2, ''#ff0000'')} \<and>
      getPixelCount s2 = 1)"
  using export_clear_import [OF reachable_one_pixel, of default_config 20 15 30 40]
    reachable_one_pixel
  by (simp add: exportCanvas_def one_pixel_cells)

subsection \<open>Startup count\<close>

lemma count_ok_loaded: "disk_ok d \<Longrightarrow> count_ok (loaded d)"
  using coherent_loaded' [of d]
  by (simp add: count_ok_def coherent_def loaded_def load_rows_fields)

text \<open>
  Claim C2, at the input where the code departs from it. The database file is
  empty and the embedded backup lists the coordinate \<open>(0, 0)\<close> twice. After
  \<open>initDatabase\<close> the occupied count returned by \<open>getPixelCount\<close> is 2, while the
  cell table has one row and the cache one entry.
\<close>

theorem startup_count_mismatch:
  "getPixelCount
     (initDatabase empty_disk (Some [(0, 0, ''#ff0000''), (0, 0, ''#00ff00'')]) 5 module_state) = 2 \<and>
   length (pixels
     (initDatabase empty_disk (Some [(0, 0, ''#ff0000''), (0, 0, ''#00ff00'')]) 5 module_state)) = 1 \<and>
   getAllPixels
     (initDatabase empty_disk (Some [(0, 0, ''#ff0000''), (0, 0, ''#00ff00'')]) 5 module_state) =
     [(0, 0, ''#00ff00'')]"
  unfolding initDatabase_loaded
  by (simp add: loaded_def empty_disk_def module_state_def getPixelCount_def getAllPixels_def
      cache_set_def setPixel_def)

subsection \<open>Amortized truncation of the placement log\<close>

lemma tx_placePixel_history:
  assumes "hist_ok s"
  shows "pixel_history (tx_placePixel x y c a now s) =
    (if Suc (placementsSincePrune s) < PRUNE_CHECK_INTERVAL
     then pixel_history s @ [log_row x y c a now (Suc (history_seq s))]
     else drop (Suc (length (pixel_history s)) - HISTORY_MAX_ENTRIES)
            (pixel_history s @ [log_row x y c a now (Suc (history_seq s))]))"
  unfolding tx_placePixel_body
  by (simp add: maybePrune_history [OF hist_ok_place_body [OF assms]] place_body_history)

lemma placeBatch_loop_history:
  "\<exists>rows. pixel_history (fst (placeBatch_loop ps a now (s, n))) = pixel_history s @ rows \<and>
          length rows = length ps"
proof (induction ps arbitrary: s n)
  case Nil
  then show ?case by simp
next
  case (Cons p ps)
  obtain x y c where p: "p = (x, y, c)" by (cases p)
  from Cons.IH [of "batch_step x y c a now s"
      "if map_of (cache_pixels s) (cache_key x y) = None then n + 1 else n"]
  obtain rows where
    "pixel_history (fst (placeBatch_loop ps a now (batch_step x y c a now s,
        if map_of (cache_pixels s) (cache_key x y) = None then n + 1 else n))) =
      pixel_history (batch_step x y c a now s) @ rows" and "length rows = length ps"
    by blast
  then show ?case
    unfolding p placeBatch_loop_Cons
    by (intro exI [of _ "log_row x y c a now (Suc (history_seq s)) # rows"])
       (simp add: batch_step_fields)
qed

lemma hist_ok_cong:
  "pixel_history t = pixel_history s \<Longrightarrow> history_seq t = history_seq s \<Longrightarrow> hist_ok t = hist_ok s"
  by (simp add: hist_ok_def)

lemma batch_body_history:
  "pixel_history (batch_body ps a now s) = pixel_history (fst (placeBatch_loop ps a now (s, 0)))"
  "history_seq (batch_body ps a now s) = history_seq (fst (placeBatch_loop ps a now (s, 0)))"
  "placementsSincePrune (batch_body ps a now s) = placementsSincePrune s"
  using placeBatch_loop_count [of ps a now s 0]
  by (auto simp: batch_body_def Let_def count_user_fields split: prod.splits)

lemma hist_ok_batch_body: "consistent s \<Longrightarrow> hist_ok (batch_body ps a now s)"
  using placeBatch_loop_consistent [of s ps a now 0]
    hist_ok_cong [OF batch_body_history(1,2), of ps a now s]
  by (simp add: consistent_def coherent_def)

lemma tx_placeBatch_history:
  assumes "consistent s"
  shows "\<exists>rows. length rows = length ps \<and>
    pixel_history (tx_placeBatch ps a now s) =
      (if Suc (placementsSincePrune s) < PRUNE_CHECK_INTERVAL then pixel_history s @ rows
       else drop (length (pixel_history s) + length ps - HISTORY_MAX_ENTRIES)
              (pixel_history s @ rows))"
proof -
  from placeBatch_loop_history [of ps a now s 0] obtain rows where
    rows: "pixel_history (fst (placeBatch_loop ps a now (s, 0))) = pixel_history s @ rows"
    and len: "length rows = length ps" by blast
  show ?thesis
    unfolding tx_placeBatch_body
    by (rule exI [of _ rows])
       (simp add: maybePrune_history [OF hist_ok_batch_body [OF assms]] batch_body_history rows len)
qed

lemma tx_placeBatch_counter:
  "placementsSincePrune (tx_placeBatch ps a now s) =
     (if Suc (placementsSincePrune s) < PRUNE_CHECK_INTERVAL then Suc (placementsSincePrune s) else 0)"
  by (simp add: tx_placeBatch_body maybePrune_counter batch_body_history)

lemma log_bound_tx_placePixel:
  assumes "hist_ok s" and "log_bound s"
  shows "log_bound (tx_placePixel x y c a now s)"
  using assms(2)
  by (auto simp: log_bound_def tx_placePixel_history [OF assms(1)] tx_placePixel_fields
      PRUNE_CHECK_INTERVAL_def HISTORY_MAX_ENTRIES_def)

lemma log_bound_transactions [simp]: "log_bound (s\<lparr>transactions := b\<rparr>) = log_bound s"
  by (simp add: log_bound_def)

lemma run_places:
  "reachable s \<Longrightarrow> log_bound s \<Longrightarrow> list_all is_place ms \<Longrightarrow>
     \<exists>s'. run ms s = Inr s' \<and> reachable s' \<and> log_bound s'"
proof (induction ms arbitrary: s)
  case Nil
  then show ?case by simp
next
  case (Cons m ms)
  from Cons.prems(3) obtain x y c a now where m: "m = Place x y c a now"
    by (cases m) simp_all
  let ?s1 = "tx_placePixel x y c a now (s\<lparr>transactions := True\<rparr>)"
  from Cons.prems(1) have cons: "consistent s" by (rule reachable_consistent)
  then have init: "dbInitialized s" and hok: "hist_ok (s\<lparr>transactions := True\<rparr>)"
    by (simp_all add: consistent_def coherent_def hist_ok_def)
  have step: "placePixel x y c a now s = Inr ?s1" by (rule placePixel_ok [OF init])
  have r1: "reachable ?s1" by (rule reachable.place [OF Cons.prems(1) step])
  have b1: "log_bound ?s1"
    by (rule log_bound_tx_placePixel [OF hok]) (simp add: Cons.prems(2))
  from Cons.IH [OF r1 b1] Cons.prems(3) show ?case by (simp add: m step)
qed

lemma run_erases:
  "dbInitialized s \<Longrightarrow>
     \<exists>s'. run (replicate n (Erase x y a now)) s = Inr s' \<and>
          placementsSincePrune s' = placementsSincePrune s \<and>
          length (pixel_history s') = length (pixel_history s) + n"
proof (induction n arbitrary: s)
  case 0
  then show ?case by simp
next
  case (Suc n)
  let ?s1 = "tx_erase x y a now (s\<lparr>transactions := True\<rparr>)"
  have step: "erasePixel x y a now s = Inr ?s1" by (rule erasePixel_ok [OF Suc.prems])
  have "dbInitialized ?s1" using Suc.prems by (simp add: tx_erase_fields)
  from Suc.IH [OF this] show ?case by (simp add: step tx_erase_fields)
qed

lemma full_log_disk_ok: "disk_ok full_log_disk"
  by (simp add: disk_ok_def full_log_disk_def log_row_def comp_def list_all_iff)

lemma reachable_full_log: "reachable full_log"
  unfolding full_log_def by (rule reachable.start [OF full_log_disk_ok])

lemma full_log_fields:
  "placementsSincePrune full_log = 0" "length (pixel_history full_log) = 100000"
  unfolding full_log_def initDatabase_loaded
  by (simp_all add: loaded_def full_log_disk_def module_state_def)

lemma run_place_replicate:
  "reachable s \<Longrightarrow> placementsSincePrune s + n < PRUNE_CHECK_INTERVAL \<Longrightarrow>
     \<exists>s'. run (replicate n (Place x y c a now)) s = Inr s' \<and> reachable s' \<and>
          placementsSincePrune s' = placementsSincePrune s + n \<and>
          length (pixel_history s') = length (pixel_history s) + n"
proof (induction n arbitrary: s)
  case 0
  then show ?case by simp
next
  case (Suc n)
  let ?s1 = "tx_placePixel x y c a now (s\<lparr>transactions := True\<rparr>)"
  from Suc.prems(1) have "consistent s" by (rule reachable_consistent)
  then have init: "dbInitialized s" by (simp add: consistent_def)
  have step: "placePixel x y c a now s = Inr ?s1" by (rule placePixel_ok [OF init])
  have r1: "reachable ?s1" by (rule reachable.place [OF Suc.prems(1) step])
  from Suc.prems(2) have lt: "Suc (placementsSincePrune (s\<lparr>transactions := True\<rparr>)) < PRUNE_CHECK_INTERVAL"
    by simp
  have c1: "placementsSincePrune ?s1 = Suc (placementsSincePrune s)"
    using lt by (simp add: tx_placePixel_fields)
  have l1: "length (pixel_history ?s1) = Suc (length (pixel_history s))"
    using tx_placePixel_length [OF lt] by simp
  from Suc.prems(2) c1 have "placementsSincePrune ?s1 + n < PRUNE_CHECK_INTERVAL" by simp
  from Suc.IH [OF r1 this] show ?case by (simp add: step c1 l1)
qed

text \<open>
  Claim C3, as amended. From every reachable state: every \<open>placePixel\<close> call and
  every non-empty \<open>placePixelsBatch\<close> call advances the truncation check by one
  (the counter \<open>placementsSincePrune\<close> goes up by one, or back to 0 on the K-th
  call, K = 500). On that K-th call the log size is compared with the ceiling
  100000 and, when it is larger, the oldest rows are deleted, leaving exactly
  the newest 100000; on every other call the new rows are only appended.
  Consequently, over any sequence of single-pixel placements that starts with
  the log within its bound, the log stays within its bound: it exceeds the
  ceiling by fewer than K rows, and is at most the ceiling whenever a check has
  just run.
\<close>

theorem truncation_check_amortized:
  assumes "reachable s"
  shows
    "(\<exists>s'. placePixel x y c a now s = Inr s' \<and>
        placementsSincePrune s' =
          (if Suc (placementsSincePrune s) < PRUNE_CHECK_INTERVAL
           then Suc (placementsSincePrune s) else 0) \<and>
        pixel_history s' =
          (if Suc (placementsSincePrune s) < PRUNE_CHECK_INTERVAL
           then pixel_history s @ [log_row x y c a now (Suc (history_seq s))]
           else drop (Suc (length (pixel_history s)) - HISTORY_MAX_ENTRIES)
                  (pixel_history s @ [log_row x y c a now (Suc (history_seq s))])) \<and>
        (\<not> Suc (placementsSincePrune s) < PRUNE_CHECK_INTERVAL \<and>
         HISTORY_MAX_ENTRIES < Suc (length (pixel_history s)) \<longrightarrow>
           length (pixel_history s') = HISTORY_MAX_ENTRIES)) \<and>
     (ps \<noteq> [] \<longrightarrow>
       (\<exists>s' rows. placePixelsBatch ps a now s = Inr s' \<and> length rows = length ps \<and>
          placementsSincePrune s' =
            (if Suc (placementsSincePrune s) < PRUNE_CHECK_INTERVAL
             then Suc (placementsSincePrune s) else 0) \<and>
          pixel_history s' =
            (if Suc (placementsSincePrune s) < PRUNE_CHECK_INTERVAL then pixel_history s @ rows
             else drop (length (pixel_history s) + length ps - HISTORY_MAX_ENTRIES)
                    (pixel_history s @ rows)) \<and>
          (\<not> Suc (placementsSincePrune s) < PRUNE_CHECK_INTERVAL \<and>
           HISTORY_MAX_ENTRIES < length (pixel_history s) + length ps \<longrightarrow>
             length (pixel_history s') = HISTORY_MAX_ENTRIES))) \<and>
     (log_bound s \<and> list_all is_place ms \<longrightarrow>
       (\<exists>s'. run ms s = Inr s' \<and> log_bound s' \<and>
          length (pixel_history s') < HISTORY_MAX_ENTRIES + PRUNE_CHECK_INTERVAL \<and>
          (placementsSincePrune s' = 0 \<longrightarrow> length (pixel_history s') \<le> HISTORY_MAX_ENTRIES)))"
proof (intro conjI impI)
  from assms have cons: "consistent s" by (rule reachable_consistent)
  then have init: "dbInitialized s" and hok: "hist_ok (s\<lparr>transactions := True\<rparr>)"
    and cons': "consistent (s\<lparr>transactions := True\<rparr>)"
    by (simp_all add: consistent_def coherent_def hist_ok_def)
  show "\<exists>s'. placePixel x y c a now s = Inr s' \<and>
        placementsSincePrune s' =
          (if Suc (placementsSincePrune s) < PRUNE_CHECK_INTERVAL
           then Suc (placementsSincePrune s) else 0) \<and>
        pixel_history s' =
          (if Suc (placementsSincePrune s) < PRUNE_CHECK_INTERVAL
           then pixel_history s @ [log_row x y c a now (Suc (history_seq s))]
           else drop (Suc (length (pixel_history s)) - HISTORY_MAX_ENTRIES)
                  (pixel_history s @ [log_row x y c a now (Suc (history_seq s))])) \<and>
        (\<not> Suc (placementsSincePrune s) < PRUNE_CHECK_INTERVAL \<and>
         HISTORY_MAX_ENTRIES < Suc (length (pixel_history s)) \<longrightarrow>
           length (pixel_history s') = HISTORY_MAX_ENTRIES)"
    using tx_placePixel_history [OF hok, of x y c a now] HISTORY_MAX_ge
    by (auto simp: placePixel_ok [OF init] tx_placePixel_fields)
  show "\<exists>s' rows. placePixelsBatch ps a now s = Inr s' \<and> length rows = length ps \<and>
          placementsSincePrune s' =
            (if Suc (placementsSincePrune s) < PRUNE_CHECK_INTERVAL
             then Suc (placementsSincePrune s) else 0) \<and>
          pixel_history s' =
            (if Suc (placementsSincePrune s) < PRUNE_CHECK_INTERVAL then pixel_history s @ rows
             else drop (length (pixel_history s) + length ps - HISTORY_MAX_ENTRIES)
                    (pixel_history s @ rows)) \<and>
          (\<not> Suc (placementsSincePrune s) < PRUNE_CHECK_INTERVAL \<and>
           HISTORY_MAX_ENTRIES < length (pixel_history s) + length ps \<longrightarrow>
             length (pixel_history s') = HISTORY_MAX_ENTRIES)"
    if "ps \<noteq> []"
  proof -
    from tx_placeBatch_history [OF cons', of ps a now] obtain rows where
      len: "length rows = length ps" and
      h: "pixel_history (tx_placeBatch ps a now (s\<lparr>transactions := True\<rparr>)) =
        (if Suc (placementsSincePrune s) < PRUNE_CHECK_INTERVAL then pixel_history s @ rows
         else drop (length (pixel_history s) + length ps - HISTORY_MAX_ENTRIES)
                (pixel_history s @ rows))" by auto
    show ?thesis
      apply (rule exI [of _ "tx_placeBatch ps a now (s\<lparr>transactions := True\<rparr>)"])
      apply (rule exI [of _ rows])
      using that len h
      by (auto simp: placePixelsBatch_ok [OF init] tx_placeBatch_counter)
  qed
  show "\<exists>s'. run ms s = Inr s' \<and> log_bound s' \<and>
          length (pixel_history s') < HISTORY_MAX_ENTRIES + PRUNE_CHECK_INTERVAL \<and>
          (placementsSincePrune s' = 0 \<longrightarrow> length (pixel_history s') \<le> HISTORY_MAX_ENTRIES)"
    if "log_bound s \<and> list_all is_place ms"
  proof -
    from run_places [OF assms, of ms] that obtain s' where
      "run ms s = Inr s'" and "log_bound s'" by blast
    then show ?thesis by (auto simp: log_bound_def)
  qed
qed

theorem truncation_check_amortized_witness:
  "(\<exists>s. run (replicate 499 (Place 5 6 ''#0000ff'' (Some ''0xab'') 8)) full_log = Inr s \<and>
      reachable s \<and> [(0, 0, ''#00ff00'')] \<noteq> [] \<and> log_bound s \<and>
      list_all is_place [Place 1 2 ''#ff0000'' (Some ''0xab'') 9] \<and>
      placementsSincePrune s = 499 \<and> length (pixel_history s) = 100499 \<and>
      \<not> Suc (placementsSincePrune s) < PRUNE_CHECK_INTERVAL \<and>
      HISTORY_MAX_ENTRIES < Suc (length (pixel_history s)) \<and>
      HISTORY_MAX_ENTRIES < length (pixel_history s) + length [(0 :: int, 0 :: int, ''#00ff00'')] \<and>
      (\<exists>s'. placePixel 1 2 ''#ff0000'' (Some ''0xab'') 9 s = Inr s' \<and>
         placementsSincePrune s' = 0 \<and>
         pixel_history s' =
           drop 500 (pixel_history s @
             [log_row 1 2 ''#ff0000'' (Some ''0xab'') 9 (Suc (history_seq s))]) \<and>
         length (pixel_history s') = HISTORY_MAX_ENTRIES) \<and>
      (\<exists>s' rows. placePixelsBatch [(0, 0, ''#00ff00'')] (Some ''0xab'') 9 s = Inr s' \<and>
         length rows = 1 \<and> placementsSincePrune s' = 0 \<and>
         pixel_history s' = drop 500 (pixel_history s @ rows) \<and>
         length (pixel_history s') = HISTORY_MAX_ENTRIES) \<and>
      (\<exists>s'. run [Place 1 2 ''#ff0000'' (Some ''0xab'') 9] s = Inr s' \<and> log_bound s' \<and>
         length (pixel_history s') < HISTORY_MAX_ENTRIES + PRUNE_CHECK_INTERVAL \<and>
         placementsSincePrune s' = 0 \<and> length (pixel_history s') \<le> HISTORY_MAX_ENTRIES)) \<and>
   reachable fresh \<and> log_bound fresh \<and>
   (\<exists>s'. placePixel 1 2 ''#ff0000'' (Some ''0xab'') 9 fresh = Inr s' \<and>
      placementsSincePrune s' = 1 \<and>
      pixel_history s' = [log_row 1 2 ''#ff0000'' (Some ''0xab'') 9 1]) \<and>
   (\<exists>s' rows. placePixelsBatch [(0, 0, ''#00ff00'')] (Some ''0xab'') 9 fresh = Inr s' \<and>
      length rows = 1 \<and> placementsSincePrune s' = 1 \<and> pixel_history s' = rows) \<and>
   (\<exists>s'. run [Place 1 2 ''#ff0000'' (Some ''0xab'') 9] fresh = Inr s' \<and> log_bound s' \<and>
      length (pixel_history s') < HISTORY_MAX_ENTRIES + PRUNE_CHECK_INTERVAL)"
proof (intro conjI)
  have "placementsSincePrune full_log + 499 < PRUNE_CHECK_INTERVAL"
    by (simp add: full_log_fields PRUNE_CHECK_INTERVAL_def)
  from run_place_replicate [OF reachable_full_log this, of 5 6 "''#0000ff''" "Some ''0xab''" 8]
  obtain s where r: "run (replicate 499 (Place 5 6 ''#0000ff'' (Some ''0xab'') 8)) full_log = Inr s"
    and re: "reachable s" and cnt: "placementsSincePrune s = 499"
    and len: "length (pixel_history s) = 100499"
    by (auto simp: full_log_fields)
  have b: "log_bound s"
    by (simp add: log_bound_def cnt len PRUNE_CHECK_INTERVAL_def HISTORY_MAX_ENTRIES_def)
  from truncation_check_amortized [OF re, of 1 2 "''#ff0000''" "Some ''0xab''" 9
      "[(0, 0, ''#00ff00'')]" "[Place 1 2 ''#ff0000'' (Some ''0xab'') 9]"] b
  obtain s1 s2 rows s3 where
    p: "placePixel 1 2 ''#ff0000'' (Some ''0xab'') 9 s = Inr s1"
       "placementsSincePrune s1 = 0"
       "pixel_history s1 =
          drop 500 (pixel_history s @
            [log_row 1 2 ''#ff0000'' (Some ''0xab'') 9 (Suc (history_seq s))])"
       "length (pixel_history s1) = HISTORY_MAX_ENTRIES" and
    q: "placePixelsBatch [(0, 0, ''#00ff00'')] (Some ''0xab'') 9 s = Inr s2"
       "length rows = 1" "placementsSincePrune s2 = 0"
       "pixel_history s2 = drop 500 (pixel_history s @ rows)"
       "length (pixel_history s2) = HISTORY_MAX_ENTRIES" and
    u: "run [Place 1 2 ''#ff0000'' (Some ''0xab'') 9] s = Inr s3" "log_bound s3"
       "length (pixel_history s3) < HISTORY_MAX_ENTRIES + PRUNE_CHECK_INTERVAL"
       "placementsSincePrune s3 = 0 \<longrightarrow> length (pixel_history s3) \<le> HISTORY_MAX_ENTRIES"
    by (auto simp: cnt len PRUNE_CHECK_INTERVAL_def HISTORY_MAX_ENTRIES_def)
  from u(1) p(1) have "s3 = s1" by simp
  with u p have u': "placementsSincePrune s3 = 0" "length (pixel_history s3) \<le> HISTORY_MAX_ENTRIES"
    by simp_all
  show "\<exists>s. run (replicate 499 (Place 5 6 ''#0000ff'' (Some ''0xab'') 8)) full_log = Inr s \<and>
      reachable s \<and> [(0, 0, ''#00ff00'')] \<noteq> [] \<and> log_bound s \<and>
      list_all is_place [Place 1 2 ''#ff0000'' (Some ''0xab'') 9] \<and>
      placementsSincePrune s = 499 \<and> length (pixel_history s) = 100499 \<and>
      \<not> Suc (placementsSincePrune s) < PRUNE_CHECK_INTERVAL \<and>
      HISTORY_MAX_ENTRIES < Suc (length (pixel_history s)) \<and>
      HISTORY_MAX_ENTRIES < length (pixel_history s) + length [(0 :: int, 0 :: int, ''#00ff00'')] \<and>
      (\<exists>s'. placePixel 1 2 ''#ff0000'' (Some ''0xab'') 9 s = Inr s' \<and>
         placementsSincePrune s' = 0 \<and>
         pixel_history s' =
           drop 500 (pixel_history s @
             [log_row 1 2 ''#ff0000'' (Some ''0xab'') 9 (Suc (history_seq s))]) \<and>
         length (pixel_history s') = HISTORY_MAX_ENTRIES) \<and>
      (\<exists>s' rows. placePixelsBatch [(0, 0, ''#00ff00'')] (Some ''0xab'') 9 s = Inr s' \<and>
         length rows = 1 \<and> placementsSincePrune s' = 0 \<and>
         pixel_history s' = drop 500 (pixel_history s @ rows) \<and>
         length (pixel_history s') = HISTORY_MAX_ENTRIES) \<and>
      (\<exists>s'. run [Place 1 2 ''#ff0000'' (Some ''0xab'') 9] s = Inr s' \<and> log_bound s' \<and>
         length (pixel_history s') < HISTORY_MAX_ENTRIES + PRUNE_CHECK_INTERVAL \<and>
         placementsSincePrune s' = 0 \<and> length (pixel_history s') \<le> HISTORY_MAX_ENTRIES)"
    apply (rule exI [of _ s])
    using r re b cnt len p q u u'
    by (simp add: PRUNE_CHECK_INTERVAL_def HISTORY_MAX_ENTRIES_def)
next
  show "reachable fresh" by (rule reachable_fresh)
  show fb: "log_bound fresh"
    by (simp add: log_bound_def fresh_fields PRUNE_CHECK_INTERVAL_def)
  note inst = truncation_check_amortized [OF reachable_fresh, of 1 2 "''#ff0000''" "Some ''0xab''" 9
      "[(0, 0, ''#00ff00'')]" "[Place 1 2 ''#ff0000'' (Some ''0xab'') 9]"]
  from inst show "\<exists>s'. placePixel 1 2 ''#ff0000'' (Some ''0xab'') 9 fresh = Inr s' \<and>
      placementsSincePrune s' = 1 \<and>
      pixel_history s' = [log_row 1 2 ''#ff0000'' (Some ''0xab'') 9 1]"
    by (auto simp: fresh_fields PRUNE_CHECK_INTERVAL_def)
  from inst show "\<exists>s' rows. placePixelsBatch [(0, 0, ''#00ff00'')] (Some ''0xab'') 9 fresh = Inr s' \<and>
      length rows = 1 \<and> placementsSincePrune s' = 1 \<and> pixel_history s' = rows"
    by (auto simp: fresh_fields PRUNE_CHECK_INTERVAL_def)
  from inst fb show "\<exists>s'. run [Place 1 2 ''#ff0000'' (Some ''0xab'') 9] fresh = Inr s' \<and> log_bound s' \<and>
      length (pixel_history s') < HISTORY_MAX_ENTRIES + PRUNE_CHECK_INTERVAL"
    by (auto simp: fresh_fields PRUNE_CHECK_INTERVAL_def)
qed

text \<open>
  Claim C3 as stated fails for erase: \<open>transactions.erase\<close> appends a log row but
  never calls \<open>maybePruneHistory\<close>. After 100501 erasures on a fresh installation
  the check has not advanced once and the log holds 100501 rows, more than the
  ceiling plus K.
\<close>

theorem erase_log_unbounded:
  "\<exists>s'. run (replicate 100501 (Erase 0 0 (Some ''0xadmin'') 7)) fresh = Inr s' \<and>
        placementsSincePrune s' = 0 \<and>
        length (pixel_history s') = 100501 \<and>
        HISTORY_MAX_ENTRIES + PRUNE_CHECK_INTERVAL < length (pixel_history s')"
  using run_erases [of fresh 100501 0 0 "Some ''0xadmin''" 7]
  by (auto simp: fresh_fields HISTORY_MAX_ENTRIES_def PRUNE_CHECK_INTERVAL_def)

subsection \<open>The occupied count under mutations\<close>

lemma apply_mutation_ok:
  assumes "consistent s" and "count_ok s"
  shows "\<exists>s'. apply_mutation m s = Inr s' \<and> consistent s' \<and> count_ok s'"
proof -
  from assms have init: "dbInitialized s" by (simp add: consistent_def)
  show ?thesis
  proof (cases m)
    case (Place x y c a now)
    with assms show ?thesis
      by (simp add: placePixel_ok [OF init] consistent_tx_placePixel count_ok_tx_placePixel)
  next
    case (PlaceBatch ps a now)
    with assms show ?thesis
      by (simp add: placePixelsBatch_ok [OF init] consistent_tx_placeBatch count_ok_tx_placeBatch)
  next
    case (Erase x y a now)
    with assms show ?thesis
      by (simp add: erasePixel_ok [OF init] consistent_tx_erase count_ok_tx_erase)
  qed
qed

lemma run_ok:
  "consistent s \<Longrightarrow> count_ok s \<Longrightarrow>
     \<exists>s'. run ms s = Inr s' \<and> consistent s' \<and> count_ok s'"
proof (induction ms arbitrary: s)
  case Nil
  then show ?case by simp
next
  case (Cons m ms)
  from apply_mutation_ok [OF Cons.prems, of m] obtain s1 where
    "apply_mutation m s = Inr s1" "consistent s1" "count_ok s1" by blast
  with Cons.IH [of s1] show ?case by simp
qed

lemma length_mirror: "coherent s \<Longrightarrow> length (cache_pixels s) = length (pixels s)"
  by (simp add: coherent_def)

text \<open>
  The mutation path keeps the occupied count exact: from a consistent state
  whose count equals the number of stored rows, after every sequence of place,
  batch-place and erase calls the count equals the number of rows of the cell
  table, the number of distinct occupied coordinates and the number of cache
  entries.
\<close>

theorem count_tracks_rows:
  assumes "consistent s" and "getPixelCount s = int (length (pixels s))"
  shows "\<exists>s'. run ms s = Inr s' \<and>
           getPixelCount s' = int (length (pixels s')) \<and>
           getPixelCount s' = int (card (fst ` set (pixels s'))) \<and>
           getPixelCount s' = int (length (getAllPixels s'))"
proof -
  from assms have "count_ok s"
    by (simp add: count_ok_def getPixelCount_def consistent_def length_mirror)
  from run_ok [OF assms(1) this, of ms] obtain s' where
    r: "run ms s = Inr s'" and c: "consistent s'" and k: "count_ok s'" by blast
  from c have coh: "coherent s'" by (simp add: consistent_def)
  then have "distinct (map fst (pixels s'))" by (simp add: coherent_def)
  then have "card (fst ` set (pixels s')) = length (pixels s')"
    using distinct_card [of "map fst (pixels s')"] by simp
  with r k coh show ?thesis
    by (simp add: count_ok_def getPixelCount_def length_mirror getAllPixels_def)
qed

theorem count_tracks_rows_witness:
  "consistent fresh \<and> getPixelCount fresh = int (length (pixels fresh)) \<and>
   (\<exists>s'. run [Place 1 2 ''#ff0000'' None 1, Place 1 2 ''#00ff00'' None 2, Erase 5 5 None 3] fresh
            = Inr s' \<and>
      getPixelCount s' = int (length (pixels s')) \<and>
      getPixelCount s' = int (card (fst ` set (pixels s'))) \<and>
      getPixelCount s' = int (length (getAllPixels s')))"
proof -
  have c: "consistent fresh" by (rule reachable_consistent [OF reachable_fresh])
  have k: "getPixelCount fresh = int (length (pixels fresh))"
    by (simp add: getPixelCount_def fresh_fields)
  from count_tracks_rows [OF c k] c k show ?thesis by blast
qed

lemma importTx_fields:
  "cache_count (importTx ps now s) = cache_count s"
  by (induction ps now s rule: importTx.induct) (simp_all add: cache_set_def setPixel_def)

lemma importTx_pixels:
  "distinct (map fst (pixels t) @ map (\<lambda>(x, y, c). (x, y)) ps) \<Longrightarrow>
     length (pixels (importTx ps now t)) = length (pixels t) + length ps"
proof (induction ps arbitrary: t)
  case Nil
  then show ?case by simp
next
  case (Cons p ps)
  obtain x y c where p: "p = (x, y, c)" by (cases p)
  from Cons.prems have fresh: "map_of (pixels t) (x, y) = None"
    by (auto simp: p map_of_eq_None_iff)
  have step: "pixels (import_step x y c now t) =
      pixels t @ [((x, y), \<lparr>row_color = c, row_placed_by = None, row_placed_at = now\<rparr>)]"
    by (simp add: import_step_fields update_fresh [OF fresh])
  have "distinct (map fst (pixels (import_step x y c now t)) @ map (\<lambda>(x, y, c). (x, y)) ps)"
    using Cons.prems by (auto simp: step p)
  from Cons.IH [OF this] show ?case
    unfolding p importTx_Cons by (simp add: step)
qed

text \<open>
  At startup the count equals the number of stored rows whenever the embedded
  backup, if one is imported, lists no coordinate twice.
\<close>

theorem startup_count:
  assumes "disk_ok d"
    and "case backup of None \<Rightarrow> True | Some ps \<Rightarrow> distinct (map (\<lambda>(x, y, c). (x, y)) ps)"
  shows "getPixelCount (initDatabase d backup now module_state) =
           int (length (pixels (initDatabase d backup now module_state)))"
proof -
  have coh: "coherent (loaded d)" by (rule coherent_loaded' [OF assms(1)])
  have cnt: "cache_count (loaded d) = int (length (pixels (loaded d)))"
    by (simp add: loaded_def load_rows_fields)
  show ?thesis
  proof (cases "cache_count (loaded d) = 0")
    case False
    with cnt show ?thesis by (simp add: initDatabase_loaded getPixelCount_def)
  next
    case True
    with cnt have empty: "pixels (loaded d) = []" by simp
    show ?thesis
    proof (cases backup)
      case None
      with cnt show ?thesis by (simp add: initDatabase_loaded getPixelCount_def)
    next
      case (Some ps)
      with assms(2) have "distinct (map fst (pixels (loaded d)) @ map (\<lambda>(x, y, c). (x, y)) ps)"
        by (simp add: empty)
      from importTx_pixels [OF this, of now] Some True cnt show ?thesis
        by (simp add: initDatabase_loaded getPixelCount_def empty)
    qed
  qed
qed

theorem startup_count_witness:
  "disk_ok empty_disk \<and>
   distinct (map (\<lambda>(x, y, c). (x, y)) [(0::int, 0::int, ''#ff0000''), (0, 1, ''#00ff00'')]) \<and>
   getPixelCount (initDatabase empty_disk (Some [(0, 0, ''#ff0000''), (0, 1, ''#00ff00'')]) 5
     module_state) = 2 \<and>
   length (pixels (initDatabase empty_disk (Some [(0, 0, ''#ff0000''), (0, 1, ''#00ff00'')]) 5
     module_state)) = 2"
proof -
  have d: "disk_ok empty_disk" by (simp add: disk_ok_def empty_disk_def)
  have b: "case Some [(0, 0, ''#ff0000''), (0::int, 1::int, ''#00ff00'')] of None \<Rightarrow> True
      | Some ps \<Rightarrow> distinct (map (\<lambda>(x, y, c). (x, y)) ps)" by simp
  have "length (pixels (initDatabase empty_disk (Some [(0, 0, ''#ff0000''), (0, 1, ''#00ff00'')]) 5
     module_state)) = 2"
    unfolding initDatabase_loaded
    by (simp add: loaded_def empty_disk_def module_state_def cache_set_def setPixel_def)
  with startup_count [OF d b, of 5] d show ?thesis by simp
qed

section \<open>Properties of the WebSocket server\<close>

subsection \<open>State updates\<close>


lemma set_socket_fields:
  "wss (set_socket w f st) = wss st"
  "connsByIP (set_socket w f st) = connsByIP st"
  "redisPub (set_socket w f st) = redisPub st"
  "instanceId (set_socket w f st) = instanceId st"
  "pid (set_socket w f st) = pid st"
  "length (clients (set_socket w f st)) = length (clients st)"
  by (simp_all add: set_socket_def length_update split: option.splits)

lemma set_socket_lookup:
  "map_of (clients (set_socket w f st)) v =
     (if v = w then map_option f (map_of (clients st) w) else map_of (clients st) v)"
  by (simp add: set_socket_def update_conv' split: option.splits)

lemma accept_fields:
  "wss (accept w st) = wss st"
  "connsByIP (accept w st) = connsByIP st"
  "redisPub (accept w st) = redisPub st"
  "instanceId (accept w st) = instanceId st"
  "pid (accept w st) = pid st"
  "map_of (clients (accept w st)) v = (if v = w then Some new_socket else map_of (clients st) v)"
  "length (clients (accept w st)) =
     (if map_of (clients st) w = None then Suc (length (clients st)) else length (clients st))"
  by (simp_all add: accept_def update_conv' length_update)





subsection \<open>Admission\<close>






subsection \<open>Broadcast and the shared channel\<close>

lemma getInstanceId_set: "instanceId st = Some i \<Longrightarrow> getInstanceId now st = (i, st)"
  by (simp add: getInstanceId_def)

lemma getInstanceId_result:
  "instanceId (snd (getInstanceId now st)) = Some (fst (getInstanceId now st))"
  by (simp add: getInstanceId_def Let_def split: option.splits)

lemma broadcast_set: "instanceId st = Some i \<Longrightarrow> snd (broadcast ty d now st) = st"
  by (simp add: broadcast_def Let_def getInstanceId_set)

lemma announce_set: "instanceId st = Some i \<Longrightarrow> snd (announce cfg ty d now db st) = st"
proof -
  assume i: "instanceId st = Some i"
  obtain es1 st1 where b1: "broadcast ty d now st = (es1, st1)" by (cases "broadcast ty d now st")
  with broadcast_set [OF i, of ty d now] have st1: "st1 = st" by simp
  obtain es2 st2 where b2: "broadcast ''status'' (StatusEvent (getStatus cfg db)) now st = (es2, st2)"
    by (cases "broadcast ''status'' (StatusEvent (getStatus cfg db)) now st")
  with broadcast_set [OF i, of "''status''" "StatusEvent (getStatus cfg db)" now]
  have "st2 = st" by simp
  with b1 b2 st1 show ?thesis by (simp add: announce_def)
qed

lemma handlePixel_server:
  assumes "instanceId st = Some i"
  shows "snd (snd (handlePixel cfg now w d (db, st))) = st"
  using announce_set [OF assms]
  by (auto simp: handlePixel_def Let_def split_def
      split: json_data.splits option.splits sum.splits)

lemma handleBatch_server:
  assumes "instanceId st = Some i"
  shows "snd (snd (handleBatch cfg now w d (db, st))) = st"
  using announce_set [OF assms]
  by (auto simp: handleBatch_def Let_def split_def
      split: json_data.splits option.splits sum.splits)

lemma handleMessage_server:
  "instanceId st = Some i \<Longrightarrow> snd (snd (handleMessage cfg now w ty d (db, st))) = st"
  by (simp add: handleMessage_def handlePixel_server handleBatch_server)

lemma on_message_instanceId:
  assumes "instanceId st = Some i"
  shows "instanceId (snd (snd (on_message cfg now w fr (db, st)))) = Some i"
proof -
  have "instanceId (set_socket w f st) = Some i" for f
    using assms by (simp add: set_socket_fields)
  from handleMessage_server [OF this] assms show ?thesis
    by (auto simp: on_message_def set_socket_fields split: option.splits frame.splits)
qed

lemma on_connection_instanceId:
  "instanceId (snd (on_connection lim verify cfg db now w ip token st)) = instanceId st"
  by (auto simp: on_connection_def Let_def closing_def set_socket_fields
      split: admission.splits)

lemma heartbeat_fields:
  "instanceId (snd (heartbeat now st)) = instanceId st"
  "wss (snd (heartbeat now st)) = wss st"
  "connsByIP (snd (heartbeat now st)) = connsByIP st"
  by (simp_all add: heartbeat_def)

lemma on_close_instanceId: "instanceId (on_close w st) = instanceId st"
  by (simp add: on_close_def Let_def split: option.splits)

lemma step_instanceId:
  assumes "instanceId st = Some i"
  shows "instanceId (snd (snd (step lim verify cfg ev (db, st)))) = Some i"
proof (cases ev)
  case (Connect now w ip token)
  then show ?thesis
    using assms
    by (simp add: connect_def on_connection_instanceId accept_fields split_def Let_def)
next
  case (Frame now w fr)
  then show ?thesis using on_message_instanceId [OF assms] by simp
next
  case (PongReply now w)
  then show ?thesis using assms by (simp add: on_pong_def set_socket_fields)
next
  case (Heartbeat now)
  then show ?thesis using assms by (simp add: heartbeat_fields split_def Let_def)
next
  case (Closed w)
  then show ?thesis using assms by (simp add: on_close_instanceId)
qed

lemma steps_instanceId:
  "instanceId st = Some i \<Longrightarrow>
     instanceId (snd (snd (steps lim verify cfg evs (db, st)))) = Some i"
proof (induction evs arbitrary: db st)
  case Nil
  then show ?case by simp
next
  case (Cons ev evs)
  obtain out1 db1 st1 where s1: "step lim verify cfg ev (db, st) = (out1, db1, st1)"
    by (cases "step lim verify cfg ev (db, st)") auto
  with step_instanceId [OF Cons.prems, of lim verify cfg ev db]
  have "instanceId st1 = Some i" by simp
  from Cons.IH [OF this, of db1] show ?case by (simp add: s1 split_def Let_def)
qed

lemma broadcastLocal_sends: "Publish ch m \<notin> set (broadcastLocal ty d st)"
  by (auto simp: broadcastLocal_def)

lemma broadcast_published:
  assumes "Publish ch m \<in> set (fst (broadcast ty d now st))"
  shows "bm_origin m = Some (fst (getInstanceId now st)) \<and>
         instanceId (snd (broadcast ty d now st)) = Some (fst (getInstanceId now st))"
proof (cases "redisPub st")
  case True
  with assms getInstanceId_result [of now st] broadcastLocal_sends [of ch m ty d st]
  show ?thesis
    by (auto simp: broadcast_def Let_def split_def)
next
  case False
  with assms broadcastLocal_sends [of ch m ty d st] show ?thesis
    by (simp add: broadcast_def Let_def)
qed

text \<open>
  Claim C9. A message \<open>m\<close> received on the shared channel is handed to
  \<open>broadcastLocal\<close> exactly when its origin differs from the instance's own id, and
  is dropped otherwise. Hence a message that this instance published through
  \<open>broadcast\<close> and that comes back on the shared channel, after any run of the
  server, is delivered to no local connection.
\<close>

theorem shared_channel_redelivery:
  "on_redis_message CHANNEL (Some m) now st =
     (if bm_origin m \<noteq> Some (fst (getInstanceId now st))
      then broadcastLocal (bm_type m) (bm_data m) (snd (getInstanceId now st)) else [],
      snd (getInstanceId now st)) \<and>
   (Publish CHANNEL p \<in> set (fst (broadcast ty d t1 st)) \<longrightarrow>
      fst (on_redis_message CHANNEL (Some p) t2
             (snd (snd (steps lim verify cfg evs (db, snd (broadcast ty d t1 st)))))) = [])"
proof (intro conjI impI)
  show "on_redis_message CHANNEL (Some m) now st =
     (if bm_origin m \<noteq> Some (fst (getInstanceId now st))
      then broadcastLocal (bm_type m) (bm_data m) (snd (getInstanceId now st)) else [],
      snd (getInstanceId now st))"
    by (simp add: on_redis_message_def split_def Let_def)
next
  assume pub: "Publish CHANNEL p \<in> set (fst (broadcast ty d t1 st))"
  let ?i = "fst (getInstanceId t1 st)"
  let ?st2 = "snd (snd (steps lim verify cfg evs (db, snd (broadcast ty d t1 st))))"
  from broadcast_published [OF pub] have origin: "bm_origin p = Some ?i"
    and set1: "instanceId (snd (broadcast ty d t1 st)) = Some ?i" by simp_all
  from steps_instanceId [OF set1] have "instanceId ?st2 = Some ?i" .
  then have "getInstanceId t2 ?st2 = (?i, ?st2)" by (rule getInstanceId_set)
  with origin show "fst (on_redis_message CHANNEL (Some p) t2 ?st2) = []"
    by (simp add: on_redis_message_def Let_def)
qed

lemma joined_eq:
  "joined =
     \<lparr>wss = True,
      clients = [(1, \<lparr>readyState = OPEN, clientIP = Some ''10.0.0.1'',
        user = Some \<lparr>address = ''0xab'', chainId = 1, isAuthorized = True, isAdmin = False\<rparr>,
        isAlive = True, lastActivity = Some 0, registered = True\<rparr>)],
      connsByIP = [(''10.0.0.1'', [1])], redisPub = False, instanceId = None, pid = 4242\<rparr>"
  by (simp add: joined_def connect_def on_connection_def canConnect_def accept_def
      idle_server_def default_limits_def member_token_def ip_count_def add_conn_def
      set_socket_def new_socket_def send_def Let_def)

theorem shared_channel_redelivery_witness:
  "Publish CHANNEL
     \<lparr>bm_type = ''pixel'', bm_data = PixelEvent 1 2 (Some ''#ff0000'') (Some ''0xab''),
      bm_origin = Some ''4242-7''\<rparr>
     \<in> set (fst (broadcast ''pixel'' (PixelEvent 1 2 (Some ''#ff0000'') (Some ''0xab'')) 100
                  publishing)) \<and>
   fst (on_redis_message CHANNEL
     (Some \<lparr>bm_type = ''pixel'', bm_data = PixelEvent 1 2 (Some ''#ff0000'') (Some ''0xab''),
            bm_origin = Some ''4242-7''\<rparr>) 200
     (snd (snd (steps default_limits member_token default_config [Heartbeat 150]
        (fresh, snd (broadcast ''pixel'' (PixelEvent 1 2 (Some ''#ff0000'') (Some ''0xab'')) 100
                  publishing)))))) = [] \<and>
   on_redis_message CHANNEL
     (Some \<lparr>bm_type = ''pixel'', bm_data = PixelEvent 1 2 (Some ''#ff0000'') (Some ''0xab''),
            bm_origin = Some ''77-5''\<rparr>) 200 publishing =
     ([Send 1 ''pixel'' (PixelEvent 1 2 (Some ''#ff0000'') (Some ''0xab''))], publishing)"
proof -
  let ?p = "\<lparr>bm_type = ''pixel'', bm_data = PixelEvent 1 2 (Some ''#ff0000'') (Some ''0xab''),
      bm_origin = Some ''4242-7''\<rparr>"
  let ?q = "\<lparr>bm_type = ''pixel'', bm_data = PixelEvent 1 2 (Some ''#ff0000'') (Some ''0xab''),
      bm_origin = Some ''77-5''\<rparr>"
  have id: "getInstanceId now publishing = (''4242-7'', publishing)" for now
    by (simp add: getInstanceId_def publishing_def)
  have pub: "Publish CHANNEL ?p
     \<in> set (fst (broadcast ''pixel'' (PixelEvent 1 2 (Some ''#ff0000'') (Some ''0xab'')) 100
                  publishing))"
    by (simp add: broadcast_def Let_def id) (simp add: publishing_def)
  have loc: "broadcastLocal ''pixel'' (PixelEvent 1 2 (Some ''#ff0000'') (Some ''0xab''))
      publishing = [Send 1 ''pixel'' (PixelEvent 1 2 (Some ''#ff0000'') (Some ''0xab''))]"
    by (simp add: broadcastLocal_def publishing_def joined_eq)
  from shared_channel_redelivery [where m = ?q and now = 200 and p = ?p and ty = "''pixel''"
      and d = "PixelEvent 1 2 (Some ''#ff0000'') (Some ''0xab'')" and ?t1.0 = 100
      and st = publishing and ?t2.0 = 200 and lim = default_limits and verify = member_token
      and cfg = default_config and evs = "[Heartbeat 150]" and db = fresh] pub
  show ?thesis by (simp add: id loc)
qed

subsection \<open>Out-of-range writes over the WebSocket\<close>

text \<open>
  Claim C4, at inputs where the code departs from it. On the default 220 x 150
  canvas an authorised member sends the frame \<open>pixel\<close> with \<open>x = -1\<close>, or the frame
  \<open>batch\<close> with the pixel \<open>(220, 150)\<close>. Neither the handlers nor the core check the
  bounds: the cell is stored, cached, counted, logged and broadcast.
\<close>

theorem websocket_out_of_range_write:
  "canvas_width default_config = 220 \<and> canvas_height default_config = 150 \<and>
   stored_cells (fst (snd (on_message default_config 5 1
     (Message ''pixel'' (PixelData (Some (- 1)) (Some 0) (Some ''#ff0000''))) (fresh, joined)))) =
     [(- 1, 0, ''#ff0000'')] \<and>
   getAllPixels (fst (snd (on_message default_config 5 1
     (Message ''pixel'' (PixelData (Some (- 1)) (Some 0) (Some ''#ff0000''))) (fresh, joined)))) =
     [(- 1, 0, ''#ff0000'')] \<and>
   getPixelCount (fst (snd (on_message default_config 5 1
     (Message ''pixel'' (PixelData (Some (- 1)) (Some 0) (Some ''#ff0000''))) (fresh, joined)))) = 1 \<and>
   length (pixel_history (fst (snd (on_message default_config 5 1
     (Message ''pixel'' (PixelData (Some (- 1)) (Some 0) (Some ''#ff0000''))) (fresh, joined))))) = 1 \<and>
   fst (on_message default_config 5 1
     (Message ''pixel'' (PixelData (Some (- 1)) (Some 0) (Some ''#ff0000''))) (fresh, joined)) =
     [Send 1 ''pixel'' (PixelEvent (- 1) 0 (Some ''#ff0000'') (Some ''0xab'')),
      Send 1 ''status'' (StatusEvent \<lparr>pixelCount = 1, totalSlots = 33000, isFull = False\<rparr>)] \<and>
   stored_cells (fst (snd (on_message default_config 5 1
     (Message ''batch'' (BatchData [(Some 220, Some 150, Some ''#00ff00'')])) (fresh, joined)))) =
     [(220, 150, ''#00ff00'')] \<and>
   getPixelCount (fst (snd (on_message default_config 5 1
     (Message ''batch'' (BatchData [(Some 220, Some 150, Some ''#00ff00'')])) (fresh, joined)))) = 1"
  by (simp add: on_message_def handleMessage_def handlePixel_def handleBatch_def joined_eq
      set_socket_def auth_required_def acting_user_def placePixel_ok placePixelsBatch_ok
      fresh_fields announce_def broadcast_def broadcastLocal_def Let_def default_config_def
      stored_cells_def getAllPixels_def getPixelCount_def getStatus_def getTotalSlots_def
      tx_placePixel_fields tx_placePixel_length PRUNE_CHECK_INTERVAL_def
      tx_placeBatch_body maybePrune_fields batch_body_def count_user_fields
      cache_has_def cache_set_def addHistory_def setPixel_def)

subsection \<open>Liveness\<close>

lemma getInstanceId_clients: "clients (snd (getInstanceId now st)) = clients st"
  by (simp add: getInstanceId_def Let_def split: option.splits)

lemma broadcast_clients: "clients (snd (broadcast ty d now st)) = clients st"
  using getInstanceId_clients [of now st]
  by (simp add: broadcast_def Let_def split_def)

lemma announce_clients: "clients (snd (announce cfg ty d now db st)) = clients st"
  by (simp add: announce_def split_def Let_def broadcast_clients)

lemma handlePixel_clients: "clients (snd (snd (handlePixel cfg now w d (db, st)))) = clients st"
  by (auto simp: handlePixel_def Let_def split_def announce_clients
      split: json_data.splits option.splits sum.splits)

lemma handleBatch_clients: "clients (snd (snd (handleBatch cfg now w d (db, st)))) = clients st"
  by (auto simp: handleBatch_def Let_def split_def announce_clients
      split: json_data.splits option.splits sum.splits)

lemma handleMessage_clients:
  "clients (snd (snd (handleMessage cfg now w ty d (db, st)))) = clients st"
  by (simp add: handleMessage_def handlePixel_clients handleBatch_clients)

lemma heartbeat_socket_effects:
  "fst (heartbeat_socket now (v, k)) =
     (if \<not> isAlive k \<and> (\<exists>t. lastActivity k = Some t \<and> 60000 < now - t)
      then [Terminate v] else [Ping v])"
  by (cases "lastActivity k") (simp_all add: heartbeat_socket_def Let_def)

lemma heartbeat_terminate:
  "Terminate w \<in> set (fst (heartbeat now st)) \<longleftrightarrow>
     (\<exists>k t. (w, k) \<in> set (clients st) \<and> \<not> isAlive k \<and> lastActivity k = Some t \<and>
        60000 < now - t)"
proof
  assume "Terminate w \<in> set (fst (heartbeat now st))"
  then obtain v k where vk: "(v, k) \<in> set (clients st)"
    and t: "Terminate w \<in> set (fst (heartbeat_socket now (v, k)))"
    by (auto simp: heartbeat_def)
  from t have "\<not> isAlive k \<and> (\<exists>t. lastActivity k = Some t \<and> 60000 < now - t) \<and> v = w"
    unfolding heartbeat_socket_effects by (simp split: if_splits)
  with vk show "\<exists>k t. (w, k) \<in> set (clients st) \<and> \<not> isAlive k \<and> lastActivity k = Some t \<and>
        60000 < now - t" by blast
next
  assume "\<exists>k t. (w, k) \<in> set (clients st) \<and> \<not> isAlive k \<and> lastActivity k = Some t \<and>
        60000 < now - t"
  then obtain k t where vk: "(w, k) \<in> set (clients st)" and "\<not> isAlive k"
    and "lastActivity k = Some t" and "60000 < now - t" by blast
  then have "Terminate w \<in> set (fst (heartbeat_socket now (w, k)))"
    unfolding heartbeat_socket_effects by simp
  with vk show "Terminate w \<in> set (fst (heartbeat now st))"
    unfolding heartbeat_def by (simp add: image_iff) blast
qed

text \<open>
  The heartbeat terminates a connection exactly when it has not been marked alive
  since the previous round and its last recorded activity is more than 60
  seconds old; one missed probe is never enough.
\<close>

theorem sweep_terminates_only_idle:
  "Terminate w \<in> set (fst (heartbeat now st)) \<longleftrightarrow>
     (\<exists>k t. (w, k) \<in> set (clients st) \<and> \<not> isAlive k \<and> lastActivity k = Some t \<and>
        60000 < now - t)"
  by (rule heartbeat_terminate)

lemma alive_not_terminated:
  assumes "distinct (map fst (clients st))" and "map_of (clients st) w = Some k" and "isAlive k"
  shows "Terminate w \<notin> set (fst (heartbeat now st))"
proof
  assume "Terminate w \<in> set (fst (heartbeat now st))"
  then obtain k' where "(w, k') \<in> set (clients st)" and "\<not> isAlive k'"
    unfolding heartbeat_terminate by blast
  with assms(1) have "map_of (clients st) w = Some k'" by simp
  with assms(2,3) \<open>\<not> isAlive k'\<close> show False by simp
qed

lemma set_socket_distinct:
  "distinct (map fst (clients st)) \<Longrightarrow> distinct (map fst (clients (set_socket w f st)))"
  by (simp add: set_socket_def distinct_update split: option.splits)

text \<open>
  A well-formed message or a pong reply from a registered connection marks it
  alive: the next heartbeat round, whenever it runs, does not terminate it.
\<close>

theorem activity_keeps_alive:
  assumes "distinct (map fst (clients st))" and "map_of (clients st) w = Some k"
    and "registered k"
  shows "Terminate w \<notin> set (fst (heartbeat t
           (snd (snd (on_message cfg now w (Message ty d) (db, st)))))) \<and>
         Terminate w \<notin> set (fst (heartbeat t (on_pong now w st)))"
proof
  let ?f = "\<lambda>k. k\<lparr>isAlive := True, lastActivity := Some now\<rparr>"
  let ?st = "set_socket w ?f st"
  have c: "clients (snd (snd (on_message cfg now w (Message ty d) (db, st)))) = clients ?st"
    using assms(2,3) by (simp add: on_message_def handleMessage_clients)
  have d: "distinct (map fst (clients ?st))" by (rule set_socket_distinct [OF assms(1)])
  have m: "map_of (clients ?st) w = Some (?f k)" using assms(2) by (simp add: set_socket_lookup)
  from alive_not_terminated [OF d m, of t]
  have "Terminate w \<notin> set (fst (heartbeat t ?st))" by simp
  then show "Terminate w \<notin> set (fst (heartbeat t
           (snd (snd (on_message cfg now w (Message ty d) (db, st))))))"
    using c by (simp add: heartbeat_def)
next
  let ?g = "\<lambda>k. if registered k then k\<lparr>isAlive := True, lastActivity := Some now\<rparr> else k"
  have d': "distinct (map fst (clients (set_socket w ?g st)))"
    by (rule set_socket_distinct [OF assms(1)])
  have m': "map_of (clients (set_socket w ?g st)) w = Some (?g k)"
    using assms(2) by (simp add: set_socket_lookup)
  from alive_not_terminated [OF d' m', of t] assms(3)
  show "Terminate w \<notin> set (fst (heartbeat t (on_pong now w st)))"
    by (simp add: on_pong_def)
qed

theorem activity_keeps_alive_witness:
  "distinct (map fst (clients joined)) \<and>
   (\<exists>k. map_of (clients joined) 1 = Some k \<and> registered k) \<and>
   Terminate 1 \<notin> set (fst (heartbeat 100000
     (snd (snd (on_message default_config 5 1 (Message ''ping'' NoData) (fresh, joined)))))) \<and>
   Terminate 1 \<notin> set (fst (heartbeat 100000 (on_pong 5 1 joined)))"
proof -
  have h: "distinct (map fst (clients joined))"
    "map_of (clients joined) 1 = Some (\<lparr>readyState = OPEN, clientIP = Some ''10.0.0.1'',
        user = Some \<lparr>address = ''0xab'', chainId = 1, isAuthorized = True, isAdmin = False\<rparr>,
        isAlive = True, lastActivity = Some 0, registered = True\<rparr>)"
    "registered (\<lparr>readyState = OPEN, clientIP = Some ''10.0.0.1'',
        user = Some \<lparr>address = ''0xab'', chainId = 1, isAuthorized = True, isAdmin = False\<rparr>,
        isAlive = True, lastActivity = Some 0, registered = True\<rparr>)"
    by (simp_all add: joined_eq)
  from activity_keeps_alive [OF h, where t = 100000 and cfg = default_config and now = 5
      and ty = "''ping''" and d = NoData and db = fresh] h
  show ?thesis by blast
qed


text \<open>
  Claim C8, at an input where the code departs from it. A connection sends a
  frame every 25 seconds or less and answers no probe. When the frames are not
  JSON the third heartbeat terminates it, although it was heard from 15 seconds
  before; with well-formed frames it is pinged every time and never terminated.
\<close>

theorem malformed_frames_do_not_keep_alive:
  "fst (steps default_limits member_token default_config
     [Frame 10000 1 Malformed, Heartbeat 25000, Frame 35000 1 Malformed, Heartbeat 50000,
      Frame 60000 1 Malformed, Heartbeat 75000] (fresh, joined)) =
     [Ping 1, Ping 1, Terminate 1] \<and>
   fst (steps default_limits member_token default_config
     [Frame 10000 1 (Message ''ping'' (PingData None)), Heartbeat 25000,
      Frame 35000 1 (Message ''ping'' (PingData None)), Heartbeat 50000,
      Frame 60000 1 (Message ''ping'' (PingData None)), Heartbeat 75000] (fresh, joined)) =
     [Send 1 ''pong'' (PongData None 10000), Ping 1, Send 1 ''pong'' (PongData None 35000), Ping 1,
      Send 1 ''pong'' (PongData None 60000), Ping 1]"
  by (simp add: joined_eq on_message_def handleMessage_def heartbeat_def heartbeat_socket_def
      set_socket_def send_def Let_def)

section \<open>Properties of the Replay Guard\<close>

lemma TTL_pos: "0 < TTL"
  by (simp add: TTL_def)

lemma check_expired:
  "\<not> in_window ts now \<Longrightarrow> checkAndUseNonce a n ts now up g = (Invalid expired_timestamp, g)"
  by (cases ts) (simp_all add: checkAndUseNonce_def in_window_def)

lemma check_unused:
  "in_window ts now \<Longrightarrow> unused (key a n) now up g \<Longrightarrow>
     fst (checkAndUseNonce a n ts now up g) = Valid"
  by (cases ts)
     (auto simp: checkAndUseNonce_def in_window_def unused_def shared_def redis_set_nx_def Let_def
        split: option.splits if_splits)

lemma check_redisClient: "redisClient (snd (checkAndUseNonce a n ts now up g)) = redisClient g"
  by (cases ts)
     (auto simp: checkAndUseNonce_def redis_set_nx_def Let_def split: option.splits prod.splits)

lemma guard_step_redisClient: "redisClient (guard_step ev g) = redisClient g"
  by (cases ev) (simp_all add: check_redisClient cleanup_def)

lemma fold_redisClient: "redisClient (fold guard_step evs g) = redisClient g"
  by (induction evs arbitrary: g) (simp_all add: guard_step_redisClient)

lemma check_valid_held:
  "fst (checkAndUseNonce a n ts now up g) = Valid \<Longrightarrow>
     held (key a n) now (shared g up) (snd (checkAndUseNonce a n ts now up g))"
  by (cases ts)
     (auto simp: checkAndUseNonce_def held_def shared_def redis_set_nx_def Let_def update_conv'
        split: option.splits if_splits)

lemma map_of_filter_keep:
  "map_of al k = Some v \<Longrightarrow> P (k, v) \<Longrightarrow> map_of (filter P al) k = Some v"
  by (induction al) (auto split: if_splits)

lemma held_shared_check:
  "held k t0 True g \<Longrightarrow> held k t0 True (snd (checkAndUseNonce a n ts now up g))"
  using TTL_pos
  by (cases ts)
     (auto simp: checkAndUseNonce_def held_def redis_set_nx_def Let_def update_conv'
        split: option.splits if_splits)

lemma held_local_check:
  "held k t0 False g \<Longrightarrow> held k t0 False (snd (checkAndUseNonce a n ts now up g))"
  by (cases ts)
     (auto simp: checkAndUseNonce_def held_def redis_set_nx_def Let_def update_conv'
        split: option.splits if_splits prod.splits)

lemma held_cleanup:
  assumes "held k t0 sh g" and "now \<le> t0 + TTL"
  shows "held k t0 sh (cleanup now g)"
proof (cases sh)
  case True
  with assms(1) show ?thesis by (simp add: held_def cleanup_def)
next
  case False
  with assms(1) obtain v where v: "map_of (store g) k = Some v" and "t0 \<le> v"
    by (auto simp: held_def split: option.splits)
  with assms(2) have "\<not> now - v > TTL" by simp
  then have "map_of (filter (\<lambda>(k, ts). \<not> now - ts > TTL) (store g)) k = Some v"
    by (intro map_of_filter_keep [OF v]) simp
  with False \<open>t0 \<le> v\<close> show ?thesis by (simp add: held_def cleanup_def)
qed

lemma held_step:
  "held k t0 sh g \<Longrightarrow> event_time ev \<le> t0 + TTL \<Longrightarrow> held k t0 sh (guard_step ev g)"
  by (cases ev; cases sh) (simp_all add: held_shared_check held_local_check held_cleanup)

lemma held_fold:
  "held k t0 sh g \<Longrightarrow> list_all (\<lambda>ev. event_time ev \<le> t0 + TTL) evs \<Longrightarrow>
     held k t0 sh (fold guard_step evs g)"
  by (induction evs arbitrary: g) (simp_all add: held_step)

lemma check_held:
  "held (key a n) t0 (shared g up) g \<Longrightarrow> in_window ts now \<Longrightarrow> now < t0 + TTL \<Longrightarrow>
     fst (checkAndUseNonce a n ts now up g) = Invalid nonce_reused"
  by (cases ts)
     (auto simp: checkAndUseNonce_def held_def shared_def in_window_def redis_set_nx_def Let_def
        split: option.splits if_splits)

text \<open>
  Claim C1, as amended. (1) A check whose timestamp lies within 5 minutes of
  server time and whose key is unused in the table that decides it is accepted.
  (2) After an accepted check of \<open>(a, n)\<close> at time \<open>now1\<close>, and after any further
  checks and cleanups, a later check of the same pair at a time \<open>now2\<close> before
  \<open>now1 + TTL\<close>, with a timestamp within the window and decided by the same table
  as the first (both by the shared backend, or both by the local store), is
  rejected with \<open>nonce_reused\<close>. (3) A check whose timestamp is more than 5
  minutes from server time in either direction, or is not a number, is rejected
  with \<open>expired_timestamp\<close> and changes nothing, whether or not the nonce is new.
\<close>

theorem replay_guard:
  "(in_window ts now \<and> unused (key a n) now up g \<longrightarrow>
      fst (checkAndUseNonce a n ts now up g) = Valid) \<and>
   (fst (checkAndUseNonce a n ts1 now1 up1 g) = Valid \<and>
    list_all (\<lambda>ev. event_time ev \<le> now2) evs \<and> now2 < now1 + TTL \<and>
    in_window ts2 now2 \<and> shared g up2 = shared g up1 \<longrightarrow>
      fst (checkAndUseNonce a n ts2 now2 up2
             (fold guard_step evs (snd (checkAndUseNonce a n ts1 now1 up1 g)))) =
        Invalid nonce_reused) \<and>
   (\<not> in_window ts now \<longrightarrow>
      checkAndUseNonce a n ts now up g = (Invalid expired_timestamp, g))"
proof (intro conjI impI)
  show "fst (checkAndUseNonce a n ts now up g) = Valid"
    if "in_window ts now \<and> unused (key a n) now up g"
    using that by (simp add: check_unused)
  show "checkAndUseNonce a n ts now up g = (Invalid expired_timestamp, g)"
    if "\<not> in_window ts now"
    using that by (rule check_expired)
  show "fst (checkAndUseNonce a n ts2 now2 up2
             (fold guard_step evs (snd (checkAndUseNonce a n ts1 now1 up1 g)))) =
        Invalid nonce_reused"
    if h: "fst (checkAndUseNonce a n ts1 now1 up1 g) = Valid \<and>
      list_all (\<lambda>ev. event_time ev \<le> now2) evs \<and> now2 < now1 + TTL \<and>
      in_window ts2 now2 \<and> shared g up2 = shared g up1"
  proof -
    let ?g1 = "snd (checkAndUseNonce a n ts1 now1 up1 g)"
    let ?g2 = "fold guard_step evs ?g1"
    from h have "held (key a n) now1 (shared g up1) ?g1" by (simp add: check_valid_held)
    moreover from h have "list_all (\<lambda>ev. event_time ev \<le> now1 + TTL) evs"
      by (auto simp: list_all_iff)
    ultimately have "held (key a n) now1 (shared g up1) ?g2" by (rule held_fold)
    moreover have "shared ?g2 up2 = shared g up1"
      using h by (simp add: shared_def fold_redisClient check_redisClient)
    ultimately show ?thesis using h by (intro check_held [where ?t0.0 = now1]) simp_all
  qed
qed

theorem replay_guard_witness:
  "in_window (Some 1000) 1000 \<and> unused (key ''0xAB'' ''n1'') 1000 False local_guard \<and>
   fst (checkAndUseNonce ''0xAB'' ''n1'' (Some 1000) 1000 False local_guard) = Valid \<and>
   list_all (\<lambda>ev. event_time ev \<le> 3000) [Cleanup 2000] \<and> 3000 < 1000 + TTL \<and>
   in_window (Some 3000) 3000 \<and> shared local_guard False = shared local_guard False \<and>
   fst (checkAndUseNonce ''0xAB'' ''n1'' (Some 3000) 3000 False
          (fold guard_step [Cleanup 2000]
             (snd (checkAndUseNonce ''0xAB'' ''n1'' (Some 1000) 1000 False local_guard)))) =
     Invalid nonce_reused \<and>
   \<not> in_window (Some 400000) 1000000 \<and>
   checkAndUseNonce ''0xAB'' ''n1'' (Some 400000) 1000000 False local_guard =
     (Invalid expired_timestamp, local_guard)"
proof -
  have h1: "in_window (Some 1000) 1000 \<and> unused (key ''0xAB'' ''n1'') 1000 False local_guard"
    by (simp add: in_window_def unused_def shared_def local_guard_def)
  have h3: "\<not> in_window (Some 400000) 1000000" by (simp add: in_window_def)
  from replay_guard [where ts = "Some 1000" and now = 1000 and a = "''0xAB''" and n = "''n1''"
      and up = False and g = local_guard] h1
  have v: "fst (checkAndUseNonce ''0xAB'' ''n1'' (Some 1000) 1000 False local_guard) = Valid"
    by blast
  have h2: "list_all (\<lambda>ev. event_time ev \<le> 3000) [Cleanup 2000] \<and> 3000 < 1000 + TTL \<and>
      in_window (Some 3000) 3000 \<and> shared local_guard False = shared local_guard False"
    by (simp add: in_window_def TTL_def)
  from replay_guard [where ts = "Some 400000" and now = 1000000 and a = "''0xAB''"
      and n = "''n1''" and up = False and g = local_guard and ?ts1.0 = "Some 1000"
      and ?now1.0 = 1000 and ?up1.0 = False and evs = "[Cleanup 2000]" and ?now2.0 = 3000
      and ?ts2.0 = "Some 3000" and ?up2.0 = False] v h2 h3
  show ?thesis using h1 by blast
qed

text \<open>
  Claim C1 as stated fails when the shared backend drops out between two checks:
  the first check is accepted by Redis, the call to Redis of the second throws,
  the local store has never seen the pair, and the second check is accepted too.
\<close>

theorem replay_guard_fails_open:
  "fst (checkAndUseNonce ''0xAB'' ''n1'' (Some 1000) 1000 True shared_guard) = Valid \<and>
   fst (checkAndUseNonce ''0xAB'' ''n1'' (Some 1000) 1000 False
          (snd (checkAndUseNonce ''0xAB'' ''n1'' (Some 1000) 1000 True shared_guard))) = Valid"
  by (simp add: checkAndUseNonce_def shared_guard_def redis_set_nx_def Let_def)

end
